theory Spec2Isabelle
  imports Main
begin

section \<open>Values thrown and passed as reasons\<close>

text \<open>
  A JavaScript value that is thrown, stored as a stream's error or passed as a reason.
  The sink itself constructs a \<open>TypeError\<close> (lines 49 and 88 of index.ts) and a
  \<open>RangeError\<close> (line 93); \<open>Undefined\<close> is the value of an omitted argument;
  \<open>Value n\<close> stands for any other value.
\<close>

datatype thrown = TypeError string | RangeError string | Value nat | Undefined

type_synonym sid = nat
type_synonym wid = nat

section \<open>The streams the sink writes to: WritableStream and its writer\<close>

text \<open>
  The platform's \<open>WritableStream\<close> with the slots the sink can observe: the state,
  the writer that holds the lock (\<open>locked\<close> is "the slot is set") and the state of the
  underlying sink. The sink awaits every call it makes on a writer, so no operation is
  in flight when the next one starts and the transient states of the standard are
  collapsed to their outcome. Streams live in a store addressed by \<open>sid\<close>, writers in a
  store addressed by \<open>wid\<close>; a writer's entry is the stream it is attached to, or
  \<open>None\<close> once \<open>releaseLock\<close> has detached it. The trace records every call made
  on a stream, a writer or the supply's iterator, in order.
\<close>

datatype sstate = Writable | Closed | Errored thrown

record 'u wstream =
  s_state :: sstate
  s_writer :: "wid option"
  s_sink :: 'u

datatype 'a event =
    CursorNext thrown
  | CursorReturn
  | CursorThrow thrown
  | GetWriter sid
  | Ready wid
  | Write wid 'a
  | Close wid
  | Abort wid thrown
  | ReleaseLock wid

record ('a, 'u) world =
  streams :: "'u wstream list"
  writers :: "sid option list"
  trace :: "'a event list"

text \<open>What an underlying sink does when the stream calls it.\<close>

record ('a, 'u) usink_ops =
  u_write :: "'a \<Rightarrow> 'u \<Rightarrow> (thrown + unit) \<times> 'u"
  u_close :: "'u \<Rightarrow> (thrown + unit) \<times> 'u"
  u_abort :: "thrown \<Rightarrow> 'u \<Rightarrow> (thrown + unit) \<times> 'u"

definition log :: "'a event \<Rightarrow> ('a, 'u) world \<Rightarrow> ('a, 'u) world" where
  "log e W = W\<lparr>trace := trace W @ [e]\<rparr>"

definition attached :: "('a, 'u) world \<Rightarrow> wid \<Rightarrow> sid option" where
  "attached W w =
     (if w < length (writers W) then
        (case writers W ! w of
           None \<Rightarrow> None
         | Some i \<Rightarrow> if i < length (streams W) then Some i else None)
      else None)"

definition locked :: "('a, 'u) world \<Rightarrow> sid \<Rightarrow> bool" where
  "locked W i = (i < length (streams W) \<and> s_writer (streams W ! i) \<noteq> None)"

definition set_stream :: "sid \<Rightarrow> 'u wstream \<Rightarrow> ('a, 'u) world \<Rightarrow> ('a, 'u) world" where
  "set_stream i st W = W\<lparr>streams := (streams W)[i := st]\<rparr>"

text \<open>The text of the platform's own TypeErrors is implementation-defined.\<close>

definition released_error :: thrown where
  "released_error = TypeError ''This writer has been released''"

definition locked_error :: thrown where
  "locked_error = TypeError ''The stream is already locked''"

definition closed_error :: thrown where
  "closed_error = TypeError ''The stream is closed or errored''"

definition not_a_stream_error :: thrown where
  "not_a_stream_error = TypeError ''getWriter is not a function''"

text \<open>\<open>stream.getWriter()\<close>: throws on a locked stream, else creates a writer.\<close>

definition getWriter :: "sid \<Rightarrow> ('a, 'u) world \<Rightarrow> (thrown + wid) \<times> ('a, 'u) world" where
  "getWriter i W0 =
     (let W = log (GetWriter i) W0 in
      if \<not> i < length (streams W) then (Inl not_a_stream_error, W)
      else
        (case s_writer (streams W ! i) of
           Some _ \<Rightarrow> (Inl locked_error, W)
         | None \<Rightarrow>
             (let w = length (writers W) in
              (Inr w, W\<lparr>streams := (streams W)[i := (streams W ! i)\<lparr>s_writer := Some w\<rparr>],
                       writers := writers W @ [Some i]\<rparr>))))"

text \<open>
  \<open>await writer.ready\<close>: rejected on a released writer and on an errored stream
  (with the stored error), fulfilled otherwise.
\<close>

definition writer_ready :: "wid \<Rightarrow> ('a, 'u) world \<Rightarrow> (thrown + unit) \<times> ('a, 'u) world" where
  "writer_ready w W0 =
     (let W = log (Ready w) W0 in
      case attached W w of
        None \<Rightarrow> (Inl released_error, W)
      | Some i \<Rightarrow>
          (case s_state (streams W ! i) of
             Errored e \<Rightarrow> (Inl e, W)
           | _ \<Rightarrow> (Inr (), W)))"

text \<open>
  \<open>await writer.write(chunk)\<close>: on a writable stream the underlying sink's
  \<open>write\<close> runs; if it throws, the stream becomes errored with what was thrown.
\<close>

definition writer_write ::
  "('a, 'u) usink_ops \<Rightarrow> wid \<Rightarrow> 'a \<Rightarrow> ('a, 'u) world \<Rightarrow> (thrown + unit) \<times> ('a, 'u) world" where
  "writer_write U w chunk W0 =
     (let W = log (Write w chunk) W0 in
      case attached W w of
        None \<Rightarrow> (Inl released_error, W)
      | Some i \<Rightarrow>
          (let st = streams W ! i in
           case s_state st of
             Errored e \<Rightarrow> (Inl e, W)
           | Closed \<Rightarrow> (Inl closed_error, W)
           | Writable \<Rightarrow>
               (case u_write U chunk (s_sink st) of
                  (Inr _, u) \<Rightarrow> (Inr (), set_stream i (st\<lparr>s_sink := u\<rparr>) W)
                | (Inl e, u) \<Rightarrow>
                    (Inl e, set_stream i (st\<lparr>s_sink := u, s_state := Errored e\<rparr>) W))))"

text \<open>\<open>await writer.close()\<close>.\<close>

definition writer_close ::
  "('a, 'u) usink_ops \<Rightarrow> wid \<Rightarrow> ('a, 'u) world \<Rightarrow> (thrown + unit) \<times> ('a, 'u) world" where
  "writer_close U w W0 =
     (let W = log (Close w) W0 in
      case attached W w of
        None \<Rightarrow> (Inl released_error, W)
      | Some i \<Rightarrow>
          (let st = streams W ! i in
           case s_state st of
             Writable \<Rightarrow>
               (case u_close U (s_sink st) of
                  (Inr _, u) \<Rightarrow> (Inr (), set_stream i (st\<lparr>s_sink := u, s_state := Closed\<rparr>) W)
                | (Inl e, u) \<Rightarrow>
                    (Inl e, set_stream i (st\<lparr>s_sink := u, s_state := Errored e\<rparr>) W))
           | _ \<Rightarrow> (Inl closed_error, W)))"

text \<open>
  \<open>await writer.abort(reason)\<close>: a no-op on a closed or errored stream; a writable
  stream becomes errored with the reason and the underlying sink's \<open>abort\<close> runs.
\<close>

definition writer_abort ::
  "('a, 'u) usink_ops \<Rightarrow> wid \<Rightarrow> thrown \<Rightarrow> ('a, 'u) world \<Rightarrow> (thrown + unit) \<times> ('a, 'u) world" where
  "writer_abort U w reason W0 =
     (let W = log (Abort w reason) W0 in
      case attached W w of
        None \<Rightarrow> (Inl released_error, W)
      | Some i \<Rightarrow>
          (let st = streams W ! i in
           case s_state st of
             Writable \<Rightarrow>
               (case u_abort U reason (s_sink st) of
                  (r, u) \<Rightarrow> (r, set_stream i (st\<lparr>s_sink := u, s_state := Errored reason\<rparr>) W))
           | _ \<Rightarrow> (Inr (), W)))"

text \<open>\<open>writer.releaseLock()\<close>: never throws; nothing to do on a released writer.\<close>

definition writer_release :: "wid \<Rightarrow> ('a, 'u) world \<Rightarrow> ('a, 'u) world" where
  "writer_release w W0 =
     (let W = log (ReleaseLock w) W0 in
      case attached W w of
        None \<Rightarrow> W
      | Some i \<Rightarrow>
          W\<lparr>streams := (streams W)[i := (streams W ! i)\<lparr>s_writer := None\<rparr>],
            writers := (writers W)[w := None]\<rparr>)"

section \<open>The supply's iterator\<close>

text \<open>
  The iterator protocol the sink relies on: \<open>next(reason)\<close> yields a stream or reports
  done, or throws; \<open>return\<close> and \<open>throw\<close> are optional methods (an array iterator
  has neither, a generator has both).
\<close>

datatype iter_result = IterYield sid | IterDone

record ('g, 'c) cursor_ops =
  c_open :: "'g \<Rightarrow> 'c"
  c_next :: "thrown \<Rightarrow> 'c \<Rightarrow> (thrown + iter_result) \<times> 'c"
  c_return :: "('c \<Rightarrow> (thrown + unit) \<times> 'c) option"
  c_throw :: "(thrown \<Rightarrow> 'c \<Rightarrow> (thrown + unit) \<times> 'c) option"

section \<open>ConcatSink (index.ts)\<close>

record sink_options =
  preventAbort :: "bool option"
  preventClose :: "bool option"

record ('g, 'c) sink =
  gen :: 'g
  options :: "sink_options option"
  iter :: "'c option"
  writer :: "wid option"

type_synonym ('a, 'u, 'g, 'c) config = "('g, 'c) sink \<times> ('a, 'u) world"

text \<open>\<open>options?.preventClose\<close> and \<open>options?.preventAbort\<close>, as truth values.\<close>

definition options_preventClose :: "sink_options option \<Rightarrow> bool" where
  "options_preventClose opts =
     (case opts of None \<Rightarrow> False
      | Some opt \<Rightarrow> (case preventClose opt of None \<Rightarrow> False | Some b \<Rightarrow> b))"

definition options_preventAbort :: "sink_options option \<Rightarrow> bool" where
  "options_preventAbort opts =
     (case opts of None \<Rightarrow> False
      | Some opt \<Rightarrow> (case preventAbort opt of None \<Rightarrow> False | Some b \<Rightarrow> b))"

definition prevent_close :: "('g, 'c) sink \<Rightarrow> bool" where
  "prevent_close s = options_preventClose (options s)"

definition prevent_abort :: "('g, 'c) sink \<Rightarrow> bool" where
  "prevent_abort s = options_preventAbort (options s)"

definition new_sink :: "'g \<Rightarrow> sink_options option \<Rightarrow> ('g, 'c) sink" where
  "new_sink g opts = \<lparr>gen = g, options = opts, iter = None, writer = None\<rparr>"

text \<open>\<open>this.#writer?.releaseLock()\<close>.\<close>

definition release_current :: "('g, 'c) sink \<Rightarrow> ('a, 'u) world \<Rightarrow> ('a, 'u) world" where
  "release_current s W = (case writer s of None \<Rightarrow> W | Some w \<Rightarrow> writer_release w W)"

text \<open>The private method \<open>next(reason)\<close>, lines 86 to 104.\<close>

definition sink_next ::
  "('g, 'c) cursor_ops \<Rightarrow> thrown \<Rightarrow> ('a, 'u, 'g, 'c) config \<Rightarrow>
     (thrown + wid) \<times> ('a, 'u, 'g, 'c) config" where
  "sink_next C reason cfg =
     (case cfg of (s, W) \<Rightarrow>
        (case iter s of
           None \<Rightarrow> (Inl (TypeError ''Iterator is undefined''), (s, W))
         | Some c \<Rightarrow>
             (case c_next C reason c of
                (Inl e, c') \<Rightarrow> (Inl e, (s\<lparr>iter := Some c'\<rparr>, log (CursorNext reason) W))
              | (Inr IterDone, c') \<Rightarrow>
                  (Inl (RangeError ''Writable stream iterator has ended''),
                   (s\<lparr>iter := Some c'\<rparr>, log (CursorNext reason) W))
              | (Inr (IterYield v), c') \<Rightarrow>
                  (let W1 = release_current s (log (CursorNext reason) W) in
                   case getWriter v W1 of
                     (Inl e, W2) \<Rightarrow> (Inl e, (s\<lparr>iter := Some c'\<rparr>, W2))
                   | (Inr w, W2) \<Rightarrow> (Inr w, (s\<lparr>iter := Some c', writer := Some w\<rparr>, W2))))))"

text \<open>
  \<open>start()\<close>, lines 35 to 45: each of the three branches obtains one iterator from the
  supply (\<open>c_open\<close>); then \<open>next()\<close> with no reason.
\<close>

definition start ::
  "('g, 'c) cursor_ops \<Rightarrow> ('a, 'u, 'g, 'c) config \<Rightarrow> (thrown + unit) \<times> ('a, 'u, 'g, 'c) config" where
  "start C cfg =
     (case cfg of (s, W) \<Rightarrow>
        (case sink_next C Undefined (s\<lparr>iter := Some (c_open C (gen s))\<rparr>, W) of
           (Inl e, cfg') \<Rightarrow> (Inl e, cfg')
         | (Inr _, cfg') \<Rightarrow> (Inr (), cfg')))"

text \<open>\<open>await w.ready; await w.write(chunk)\<close>, as written twice in \<open>write\<close>.\<close>

definition submit ::
  "('a, 'u) usink_ops \<Rightarrow> wid \<Rightarrow> 'a \<Rightarrow> ('a, 'u) world \<Rightarrow> (thrown + unit) \<times> ('a, 'u) world" where
  "submit U w chunk W =
     (case writer_ready w W of
        (Inl e, W1) \<Rightarrow> (Inl e, W1)
      | (Inr _, W1) \<Rightarrow> writer_write U w chunk W1)"

text \<open>\<open>write(chunk)\<close>, lines 47 to 60 (\<open>write\<close> is an Isar keyword).\<close>

definition sink_write ::
  "('g, 'c) cursor_ops \<Rightarrow> ('a, 'u) usink_ops \<Rightarrow> 'a \<Rightarrow> ('a, 'u, 'g, 'c) config \<Rightarrow>
     (thrown + unit) \<times> ('a, 'u, 'g, 'c) config" where
  "sink_write C U chunk cfg =
     (case cfg of (s, W) \<Rightarrow>
        (case writer s of
           None \<Rightarrow> (Inl (TypeError ''Writer is undefined''), (s, W))
         | Some w \<Rightarrow>
             (case submit U w chunk W of
                (Inr _, W1) \<Rightarrow> (Inr (), (s, W1))
              | (Inl err, W1) \<Rightarrow>
                  (case sink_next C err (s, W1) of
                     (Inl e, cfg2) \<Rightarrow> (Inl e, cfg2)
                   | (Inr nextWriter, (s2, W2)) \<Rightarrow>
                       (case submit U nextWriter chunk W2 of
                          (r, W3) \<Rightarrow> (r, (s2, W3)))))))"

text \<open>\<open>await this.#iter?.return?.(undefined)\<close>.\<close>

definition iter_return ::
  "('g, 'c) cursor_ops \<Rightarrow> ('a, 'u, 'g, 'c) config \<Rightarrow> (thrown + unit) \<times> ('a, 'u, 'g, 'c) config" where
  "iter_return C cfg =
     (case cfg of (s, W) \<Rightarrow>
        (case iter s of
           None \<Rightarrow> (Inr (), (s, W))
         | Some c \<Rightarrow>
             (case c_return C of
                None \<Rightarrow> (Inr (), (s, W))
              | Some ret \<Rightarrow>
                  (case ret c of (r, c') \<Rightarrow> (r, (s\<lparr>iter := Some c'\<rparr>, log CursorReturn W))))))"

text \<open>\<open>await this.#iter?.throw?.(reason)\<close>.\<close>

definition iter_throw ::
  "('g, 'c) cursor_ops \<Rightarrow> thrown \<Rightarrow> ('a, 'u, 'g, 'c) config \<Rightarrow>
     (thrown + unit) \<times> ('a, 'u, 'g, 'c) config" where
  "iter_throw C reason cfg =
     (case cfg of (s, W) \<Rightarrow>
        (case iter s of
           None \<Rightarrow> (Inr (), (s, W))
         | Some c \<Rightarrow>
             (case c_throw C of
                None \<Rightarrow> (Inr (), (s, W))
              | Some thr \<Rightarrow>
                  (case thr reason c of
                     (r, c') \<Rightarrow> (r, (s\<lparr>iter := Some c'\<rparr>, log (CursorThrow reason) W))))))"

text \<open>\<open>close()\<close>, lines 62 to 70.\<close>

definition close ::
  "('g, 'c) cursor_ops \<Rightarrow> ('a, 'u) usink_ops \<Rightarrow> ('a, 'u, 'g, 'c) config \<Rightarrow>
     (thrown + unit) \<times> ('a, 'u, 'g, 'c) config" where
  "close C U cfg =
     (case iter_return C cfg of
        (Inl e, cfg1) \<Rightarrow> (Inl e, cfg1)
      | (Inr _, (s, W1)) \<Rightarrow>
          (case (if \<not> prevent_close s
                 then (case writer s of
                         None \<Rightarrow> (Inr (), W1)
                       | Some w \<Rightarrow> writer_close U w W1)
                 else (Inr (), W1)) of
             (Inl e, W2) \<Rightarrow> (Inl e, (s, W2))
           | (Inr _, W2) \<Rightarrow> (Inr (), (s, release_current s W2))))"

text \<open>\<open>abort(reason)\<close>, lines 72 to 84.\<close>

definition abort ::
  "('g, 'c) cursor_ops \<Rightarrow> ('a, 'u) usink_ops \<Rightarrow> thrown \<Rightarrow> ('a, 'u, 'g, 'c) config \<Rightarrow>
     (thrown + unit) \<times> ('a, 'u, 'g, 'c) config" where
  "abort C U reason cfg =
     (case iter_throw C reason cfg of
        (_, (s, W1)) \<Rightarrow>
          (case (if \<not> prevent_abort s
                 then (case writer s of
                         None \<Rightarrow> (Inr (), W1)
                       | Some w \<Rightarrow> writer_abort U w reason W1)
                 else (Inr (), W1)) of
             (Inl e, W2) \<Rightarrow> (Inl e, (s, W2))
           | (Inr _, W2) \<Rightarrow> (Inr (), (s, release_current s W2))))"

section \<open>The pipe that drives the sink\<close>

text \<open>
  \<open>readable.pipeTo(new WritableStream(sink))\<close>: the stream calls \<open>start\<close> once, then
  \<open>write\<close> for each chunk in order, each after the previous call has settled, then
  \<open>close\<close> when the source has ended. When \<open>start\<close> or \<open>write\<close> rejects, the
  stream is errored, no further method of the sink is called and the pipe rejects with
  that error.
\<close>

fun write_all ::
  "('g, 'c) cursor_ops \<Rightarrow> ('a, 'u) usink_ops \<Rightarrow> 'a list \<Rightarrow> ('a, 'u, 'g, 'c) config \<Rightarrow>
     (thrown + unit) \<times> ('a, 'u, 'g, 'c) config" where
  "write_all C U [] cfg = (Inr (), cfg)"
| "write_all C U (x # xs) cfg =
     (case sink_write C U x cfg of
        (Inl e, cfg') \<Rightarrow> (Inl e, cfg')
      | (Inr _, cfg') \<Rightarrow> write_all C U xs cfg')"

definition feed ::
  "('g, 'c) cursor_ops \<Rightarrow> ('a, 'u) usink_ops \<Rightarrow> 'a list \<Rightarrow> ('a, 'u, 'g, 'c) config \<Rightarrow>
     (thrown + unit) \<times> ('a, 'u, 'g, 'c) config" where
  "feed C U xs cfg =
     (case start C cfg of
        (Inl e, cfg1) \<Rightarrow> (Inl e, cfg1)
      | (Inr _, cfg1) \<Rightarrow> write_all C U xs cfg1)"

definition pipeTo ::
  "('g, 'c) cursor_ops \<Rightarrow> ('a, 'u) usink_ops \<Rightarrow> 'a list \<Rightarrow> ('a, 'u, 'g, 'c) config \<Rightarrow>
     (thrown + unit) \<times> ('a, 'u, 'g, 'c) config" where
  "pipeTo C U xs cfg =
     (case feed C U xs cfg of
        (Inl e, cfg1) \<Rightarrow> (Inl e, cfg1)
      | (Inr _, cfg1) \<Rightarrow> close C U cfg1)"

section \<open>The streams and supplies of the test file\<close>

text \<open>\<open>InMemoryWritableStream\<close>: the underlying sink pushes each chunk on a buffer.\<close>

definition inmemory_ops :: "('a, 'a list) usink_ops" where
  "inmemory_ops =
     \<lparr>u_write = (\<lambda>chunk buffer. (Inr (), buffer @ [chunk])),
      u_close = (\<lambda>buffer. (Inr (), buffer)),
      u_abort = (\<lambda>reason buffer. (Inr (), buffer))\<rparr>"

definition new_inmemory :: "'a list wstream" where
  "new_inmemory = \<lparr>s_state = Writable, s_writer = None, s_sink = []\<rparr>"

text \<open>
  \<open>LimitedWritableStream\<close>: the state of its underlying sink is the counter
  \<open>#read\<close>, the constructor's \<open>size\<close> and \<open>options\<close>, the variable
  \<open>writer\<close> and the wrapped stream, which is stream 0 of a store of its own.
\<close>

record 'a limited =
  l_read :: nat
  l_size :: nat
  l_options :: "sink_options option"
  l_writer :: "wid option"
  l_inner :: "('a, 'a list) world"

text \<open>Decimal digits of a number, for the template literal of the error message.\<close>

function show_nat :: "nat \<Rightarrow> string" where
  "show_nat n =
     (if n < 10 then [char_of (48 + n)]
      else show_nat (n div 10) @ [char_of (48 + n mod 10)])"
  by pat_completeness auto
termination
  by (relation "measure id") auto

declare show_nat.simps [simp del]

definition exceeded_error :: "nat \<Rightarrow> thrown" where
  "exceeded_error sz =
     RangeError (''Exceeded chunk limit of '' @ [CHR 0x27] @ show_nat sz @ [CHR 0x27])"

text \<open>\<open>start: () => { writer = writable.getWriter(); }\<close>\<close>

definition limited_start :: "'a limited \<Rightarrow> 'a limited" where
  "limited_start u =
     (case getWriter 0 (l_inner u) of
        (Inl e, W) \<Rightarrow> u\<lparr>l_inner := W\<rparr>
      | (Inr w, W) \<Rightarrow> u\<lparr>l_writer := Some w, l_inner := W\<rparr>)"

text \<open>\<open>writer?.releaseLock()\<close> inside the limited stream.\<close>

definition limited_release :: "'a limited \<Rightarrow> ('a, 'a list) world \<Rightarrow> ('a, 'a list) world" where
  "limited_release u W = (case l_writer u of None \<Rightarrow> W | Some w \<Rightarrow> writer_release w W)"

text \<open>
  \<open>write\<close>, lines 114 to 127 of the test file. When the limit is exceeded the wrapped
  stream is closed without awaiting the result, released, and a RangeError is thrown.
\<close>

definition limited_write :: "'a \<Rightarrow> 'a limited \<Rightarrow> (thrown + unit) \<times> 'a limited" where
  "limited_write chunk u =
     (if l_read u + 1 > l_size u then
        (let W1 = (if \<not> options_preventClose (l_options u)
                   then (case l_writer u of
                           None \<Rightarrow> l_inner u
                         | Some w \<Rightarrow> snd (writer_close inmemory_ops w (l_inner u)))
                   else l_inner u)
         in (Inl (exceeded_error (l_size u)), u\<lparr>l_inner := limited_release u W1\<rparr>))
      else
        (let u1 = u\<lparr>l_read := l_read u + 1\<rparr> in
         case l_writer u1 of
           None \<Rightarrow> (Inr (), u1)
         | Some w \<Rightarrow>
             (case submit inmemory_ops w chunk (l_inner u1) of
                (r, W2) \<Rightarrow> (r, u1\<lparr>l_inner := W2\<rparr>))))"

text \<open>\<open>abort\<close>, lines 129 to 135.\<close>

definition limited_abort :: "thrown \<Rightarrow> 'a limited \<Rightarrow> (thrown + unit) \<times> 'a limited" where
  "limited_abort reason u =
     (case (if \<not> options_preventAbort (l_options u)
            then (case l_writer u of
                    None \<Rightarrow> (Inr (), l_inner u)
                  | Some w \<Rightarrow> writer_abort inmemory_ops w reason (l_inner u))
            else (Inr (), l_inner u)) of
        (Inl e, W1) \<Rightarrow> (Inl e, u\<lparr>l_inner := W1\<rparr>)
      | (Inr _, W1) \<Rightarrow> (Inr (), u\<lparr>l_inner := limited_release u W1\<rparr>))"

text \<open>\<open>close\<close>, lines 137 to 143.\<close>

definition limited_close :: "'a limited \<Rightarrow> (thrown + unit) \<times> 'a limited" where
  "limited_close u =
     (case (if \<not> options_preventClose (l_options u)
            then (case l_writer u of
                    None \<Rightarrow> (Inr (), l_inner u)
                  | Some w \<Rightarrow> writer_close inmemory_ops w (l_inner u))
            else (Inr (), l_inner u)) of
        (Inl e, W1) \<Rightarrow> (Inl e, u\<lparr>l_inner := W1\<rparr>)
      | (Inr _, W1) \<Rightarrow> (Inr (), u\<lparr>l_inner := limited_release u W1\<rparr>))"

definition limited_ops :: "('a, 'a limited) usink_ops" where
  "limited_ops = \<lparr>u_write = limited_write, u_close = limited_close, u_abort = limited_abort\<rparr>"

text \<open>\<open>new LimitedWritableStream(size, new InMemoryWritableStream())\<close>\<close>

definition new_limited :: "nat \<Rightarrow> 'a limited wstream" where
  "new_limited sz =
     \<lparr>s_state = Writable, s_writer = None,
      s_sink = limited_start
        \<lparr>l_read = 0, l_size = sz, l_options = None, l_writer = None,
         l_inner = \<lparr>streams = [new_inmemory], writers = [], trace = []\<rparr>\<rparr>\<rparr>"

text \<open>A store of \<open>n\<close> fresh limited streams of the same size, with no writer yet.\<close>

definition limited_world :: "nat \<Rightarrow> nat \<Rightarrow> ('a, 'a limited) world" where
  "limited_world n sz = \<lparr>streams = replicate n (new_limited sz), writers = [], trace = []\<rparr>"

text \<open>\<open>data\<close> of the in-memory stream that limited stream \<open>i\<close> wraps.\<close>

definition data :: "('a, 'a limited) world \<Rightarrow> sid \<Rightarrow> 'a list" where
  "data W i = s_sink (streams (l_inner (s_sink (streams W ! i))) ! 0)"

text \<open>\<open>locked\<close> of the in-memory stream that limited stream \<open>i\<close> wraps.\<close>

definition inner_locked :: "('a, 'a limited) world \<Rightarrow> sid \<Rightarrow> bool" where
  "inner_locked W i = locked (l_inner (s_sink (streams W ! i))) 0"

text \<open>
  An array of streams as the supply: its iterator yields the elements in order and has
  neither a \<open>return\<close> nor a \<open>throw\<close> method.
\<close>

definition array_ops :: "(sid list, sid list \<times> nat) cursor_ops" where
  "array_ops =
     \<lparr>c_open = (\<lambda>xs. (xs, 0)),
      c_next = (\<lambda>reason (xs, k).
         if k < length xs then (Inr (IterYield (xs ! k)), (xs, k + 1))
         else (Inr IterDone, (xs, k))),
      c_return = None,
      c_throw = None\<rparr>"

text \<open>
  The generator of the third test: \<open>for (i = 0; i < n; i++) { try { yield stream i }
  finally { cnt++ } }\<close>, with the streams it creates taken from the store in order. The
  generator is suspended before its body, at the \<open>yield\<close> of iteration \<open>i\<close>, or has
  completed; \<open>g_cnt\<close> is the counter of the \<open>finally\<close> block.
\<close>

datatype gen_pc = GenStart | GenAtYield nat | GenDone

record gen_state =
  g_bound :: nat
  g_pc :: gen_pc
  g_cnt :: nat

text \<open>The loop from its test \<open>i < n\<close> on.\<close>

definition gen_loop :: "nat \<Rightarrow> gen_state \<Rightarrow> (thrown + iter_result) \<times> gen_state" where
  "gen_loop i g =
     (if i < g_bound g then (Inr (IterYield i), g\<lparr>g_pc := GenAtYield i\<rparr>)
      else (Inr IterDone, g\<lparr>g_pc := GenDone\<rparr>))"

definition gen_next :: "thrown \<Rightarrow> gen_state \<Rightarrow> (thrown + iter_result) \<times> gen_state" where
  "gen_next reason g =
     (case g_pc g of
        GenStart \<Rightarrow> gen_loop 0 g
      | GenAtYield i \<Rightarrow> gen_loop (i + 1) (g\<lparr>g_cnt := g_cnt g + 1\<rparr>)
      | GenDone \<Rightarrow> (Inr IterDone, g))"

definition gen_return :: "gen_state \<Rightarrow> (thrown + unit) \<times> gen_state" where
  "gen_return g =
     (case g_pc g of
        GenStart \<Rightarrow> (Inr (), g\<lparr>g_pc := GenDone\<rparr>)
      | GenAtYield i \<Rightarrow> (Inr (), g\<lparr>g_cnt := g_cnt g + 1, g_pc := GenDone\<rparr>)
      | GenDone \<Rightarrow> (Inr (), g))"

definition gen_throw :: "thrown \<Rightarrow> gen_state \<Rightarrow> (thrown + unit) \<times> gen_state" where
  "gen_throw reason g =
     (case g_pc g of
        GenStart \<Rightarrow> (Inl reason, g\<lparr>g_pc := GenDone\<rparr>)
      | GenAtYield i \<Rightarrow> (Inl reason, g\<lparr>g_cnt := g_cnt g + 1, g_pc := GenDone\<rparr>)
      | GenDone \<Rightarrow> (Inl reason, g))"

definition generator_ops :: "(nat, gen_state) cursor_ops" where
  "generator_ops =
     \<lparr>c_open = (\<lambda>n. \<lparr>g_bound = n, g_pc = GenStart, g_cnt = 0\<rparr>),
      c_next = gen_next,
      c_return = Some gen_return,
      c_throw = Some gen_throw\<rparr>"

section \<open>Vocabulary of the properties\<close>

text \<open>The calls recorded between two worlds of one run.\<close>

definition since :: "('a, 'u) world \<Rightarrow> ('a, 'u) world \<Rightarrow> 'a event list" where
  "since W W' = drop (length (trace W)) (trace W')"

fun is_advance :: "'a event \<Rightarrow> bool" where
  "is_advance (CursorNext r) = True"
| "is_advance e = False"

fun is_write :: "'a event \<Rightarrow> bool" where
  "is_write (Write w x) = True"
| "is_write e = False"

text \<open>Call \<open>a\<close> occurs in the trace and call \<open>b\<close> occurs after its first occurrence.\<close>

definition before :: "'a event \<Rightarrow> 'a event \<Rightarrow> 'a event list \<Rightarrow> bool" where
  "before a b tr = (b \<in> set (drop 1 (dropWhile (\<lambda>e. e \<noteq> a) tr)))"

text \<open>
  The two stores agree: a writer is attached to a stream exactly when that stream's
  writer slot holds it.
\<close>

definition wf_world :: "('a, 'u) world \<Rightarrow> bool" where
  "wf_world W =
     ((\<forall>w < length (writers W). \<forall>i. writers W ! w = Some i \<longrightarrow>
          i < length (streams W) \<and> s_writer (streams W ! i) = Some w) \<and>
      (\<forall>i < length (streams W). \<forall>w. s_writer (streams W ! i) = Some w \<longrightarrow>
          w < length (writers W) \<and> writers W ! w = Some i))"

text \<open>
  No writer is attached to a stream except the sink's current one, which is a writer of
  the store.
\<close>

definition sole_holder :: "('a, 'u, 'g, 'c) config \<Rightarrow> bool" where
  "sole_holder cfg =
     (case cfg of (s, W) \<Rightarrow>
        wf_world W \<and>
        (\<forall>w < length (writers W). writers W ! w \<noteq> None \<longrightarrow> writer s = Some w) \<and>
        (case writer s of None \<Rightarrow> True | Some w \<Rightarrow> w < length (writers W)))"

text \<open>Two worlds with the same writers and the same writer slot in every stream.\<close>

definition same_locks :: "('a, 'u) world \<Rightarrow> ('a, 'u) world \<Rightarrow> bool" where
  "same_locks W W' =
     (writers W' = writers W \<and> length (streams W') = length (streams W) \<and>
      (\<forall>i < length (streams W). s_writer (streams W' ! i) = s_writer (streams W ! i)))"

text \<open>No writer of the store is attached to a stream.\<close>

definition no_live :: "('a, 'u) world \<Rightarrow> bool" where
  "no_live W = (\<forall>w < length (writers W). writers W ! w = None)"

text \<open>The \<open>j\<close>-th block of \<open>K\<close> consecutive chunks of an input.\<close>

definition slice :: "nat \<Rightarrow> nat \<Rightarrow> 'a list \<Rightarrow> 'a list" where
  "slice K j p = take K (drop (j * K) p)"

text \<open>The store of a limited stream while it holds its in-memory stream open: one writable stream with buffer \<open>d\<close>, locked by writer 0.\<close>

definition inner_open :: "'a list \<Rightarrow> ('a, 'a list) world \<Rightarrow> bool" where
  "inner_open d Wi =
     (streams Wi = [\<lparr>s_state = Writable, s_writer = Some 0, s_sink = d\<rparr>] \<and> writers Wi = [Some 0])"

text \<open>The same store after the limited stream has closed and released its in-memory stream.\<close>

definition inner_shut :: "'a list \<Rightarrow> ('a, 'a list) world \<Rightarrow> bool" where
  "inner_shut d Wi =
     (streams Wi = [\<lparr>s_state = Closed, s_writer = None, s_sink = d\<rparr>] \<and> writers Wi = [None])"

text \<open>The state of a limited stream's underlying sink of size \<open>K\<close> that has accepted the chunks \<open>d\<close>.\<close>

definition lim_ok :: "nat \<Rightarrow> 'a list \<Rightarrow> bool \<Rightarrow> 'a limited \<Rightarrow> bool" where
  "lim_ok K d opn u =
     (l_size u = K \<and> l_options u = None \<and> l_writer u = Some 0 \<and> l_read u = length d \<and>
      (if opn then inner_open d (l_inner u) else inner_shut d (l_inner u)))"

text \<open>A limited stream of the outer store in a given state, with a given writer slot.\<close>

definition consumer ::
  "nat \<Rightarrow> 'a list \<Rightarrow> sstate \<Rightarrow> wid option \<Rightarrow> bool \<Rightarrow> 'a limited wstream \<Rightarrow> bool" where
  "consumer K d st lk opn x = (s_state x = st \<and> s_writer x = lk \<and> lim_ok K d opn (s_sink x))"

text \<open>The state of sink and store once the chunks \<open>p\<close> have been written and consumer \<open>i\<close> is the current one: the consumers before it are full, errored and released, it holds the sink's writer, and the consumers after it are untouched.\<close>

definition routed ::
  "nat \<Rightarrow> nat \<Rightarrow> nat \<Rightarrow> 'a list \<Rightarrow> ('g, 'c) sink \<times> ('a, 'a limited) world \<Rightarrow> bool" where
  "routed K N i p cfg =
     (case cfg of (s, W) \<Rightarrow>
        i < N \<and> i * K \<le> length p \<and> length p \<le> (i + 1) * K \<and> (i = 0 \<or> i * K < length p) \<and>
        writer s = Some i \<and> writers W = replicate i None @ [Some i] \<and>
        length (streams W) = N \<and>
        (\<forall>j < N. consumer K (slice K j p)
                   (if j < i then Errored (exceeded_error K) else Writable)
                   (if j = i then Some i else None) (i \<le> j) (streams W ! j)))"

text \<open>A supply that yields the streams of the store in order: from position \<open>i\<close> the iterator yields stream \<open>i + 1\<close>, or reports done after the last one.\<close>

definition steps ::
  "('g, 'c) cursor_ops \<Rightarrow> nat \<Rightarrow> (nat \<Rightarrow> 'c \<Rightarrow> bool) \<Rightarrow> ('c \<Rightarrow> bool) \<Rightarrow> bool" where
  "steps C N pos fin =
     (\<forall>i c r. pos i c \<longrightarrow>
        (if Suc i < N then \<exists>c'. c_next C r c = (Inr (IterYield (Suc i)), c') \<and> pos (Suc i) c'
         else \<exists>c'. c_next C r c = (Inr IterDone, c') \<and> fin c'))"

text \<open>
  The locks of a world: the writer slot of every stream and the stream of every writer.
  \<open>lock_step\<close> is what one recorded call does to the locks (only \<open>getWriter\<close> and
  \<open>releaseLock\<close> touch them), \<open>replay\<close> runs a list of calls, \<open>live\<close> counts the
  attached writers and \<open>peak\<close> is the largest count met before, between and after the
  calls of a list.
\<close>

type_synonym locks = "wid option list \<times> sid option list"

definition skel :: "('a, 'u) world \<Rightarrow> locks" where
  "skel W = (map s_writer (streams W), writers W)"

fun lock_step :: "'a event \<Rightarrow> locks \<Rightarrow> locks" where
  "lock_step (GetWriter i) (slots, ws) =
     (if i < length slots \<and> slots ! i = None
      then (slots[i := Some (length ws)], ws @ [Some i])
      else (slots, ws))"
| "lock_step (ReleaseLock w) (slots, ws) =
     (if w < length ws then
        (case ws ! w of
           None \<Rightarrow> (slots, ws)
         | Some i \<Rightarrow> if i < length slots then (slots[i := None], ws[w := None]) else (slots, ws))
      else (slots, ws))"
| "lock_step e sk = sk"

fun replay :: "'a event list \<Rightarrow> locks \<Rightarrow> locks" where
  "replay [] sk = sk"
| "replay (e # es) sk = replay es (lock_step e sk)"

definition live :: "locks \<Rightarrow> nat" where
  "live sk = length (filter (\<lambda>x. x \<noteq> None) (snd sk))"

fun peak :: "locks \<Rightarrow> 'a event list \<Rightarrow> nat" where
  "peak sk [] = live sk"
| "peak sk (e # es) = max (live sk) (peak (lock_step e sk) es)"

text \<open>
  The calls recorded between two worlds account for every change of the locks, and at
  no point before, between or after these calls is more than one writer attached.
\<close>

definition at_most_one :: "('a, 'u) world \<Rightarrow> ('a, 'u) world \<Rightarrow> bool" where
  "at_most_one W W' =
     (trace W' = trace W @ since W W' \<and>
      skel W' = replay (since W W') (skel W) \<and>
      peak (skel W) (since W W') \<le> 1)"

section \<open>Concrete runs\<close>

text \<open>A sink over an array of one limited stream of size 2, after \<open>start\<close>.\<close>

definition one_started :: "(sid list, sid list \<times> nat) sink \<times> (char, char limited) world" where
  "one_started = snd (start array_ops (new_sink [0..<1] None, limited_world 1 2))"

text \<open>A sink over an array of two limited streams of size 1, after \<open>start\<close> and one chunk: the current consumer is full.\<close>

definition two_full :: "(sid list, sid list \<times> nat) sink \<times> (char, char limited) world" where
  "two_full = snd (feed array_ops limited_ops ''A'' (new_sink [0..<2] None, limited_world 2 1))"

text \<open>A sink over an array of two limited streams, after \<open>start\<close>, whose current consumer has been errored from outside with the value 7.\<close>

definition two_errored :: "(sid list, sid list \<times> nat) sink \<times> (char, char limited) world" where
  "two_errored =
     (case snd (start array_ops (new_sink [0..<2] None, limited_world 2 2)) of
        (s, W) \<Rightarrow> (s, set_stream 0 ((streams W ! 0)\<lparr>s_state := Errored (Value 7)\<rparr>) W))"

text \<open>A sink over the generator of \<open>n\<close> limited streams of size 1, after \<open>start\<close>.\<close>

definition gen_started :: "nat \<Rightarrow> sink_options option \<Rightarrow> (nat, gen_state) sink \<times> (char, char limited) world" where
  "gen_started n opts = snd (start generator_ops (new_sink n opts, limited_world n 1))"

text \<open>Both options set.\<close>

definition quiet :: "sink_options option" where
  "quiet = Some \<lparr>preventAbort = Some True, preventClose = Some True\<rparr>"

section \<open>Calls on streams and writers\<close>

lemma attached_log [simp]: "attached (log e W) w = attached W w"
  by (simp add: attached_def log_def split: option.splits)

lemma streams_log [simp]: "streams (log e W) = streams W"
  by (simp add: log_def)

lemma writers_log [simp]: "writers (log e W) = writers W"
  by (simp add: log_def)

lemma trace_log [simp]: "trace (log e W) = trace W @ [e]"
  by (simp add: log_def)

lemma attached_set_stream [simp]: "attached (set_stream i st W) w = attached W w"
  by (simp add: attached_def set_stream_def split: option.splits)

lemma streams_set_stream [simp]: "streams (set_stream i st W) = (streams W)[i := st]"
  by (simp add: set_stream_def)

lemma writers_set_stream [simp]: "writers (set_stream i st W) = writers W"
  by (simp add: set_stream_def)

lemma trace_set_stream [simp]: "trace (set_stream i st W) = trace W"
  by (simp add: set_stream_def)

lemma attached_bound: "attached W w = Some i \<Longrightarrow> i < length (streams W)"
  by (simp add: attached_def split: if_splits option.splits)

lemma trace_writer_ready [simp]: "trace (snd (writer_ready w W)) = trace W @ [Ready w]"
  by (simp add: writer_ready_def Let_def split: option.splits sstate.splits)

lemma trace_writer_write [simp]: "trace (snd (writer_write U w x W)) = trace W @ [Write w x]"
  by (simp add: writer_write_def Let_def split: option.splits sstate.splits prod.splits sum.splits)

lemma trace_writer_close [simp]: "trace (snd (writer_close U w W)) = trace W @ [Close w]"
  by (simp add: writer_close_def Let_def split: option.splits sstate.splits prod.splits sum.splits)

lemma trace_writer_abort [simp]: "trace (snd (writer_abort U w r W)) = trace W @ [Abort w r]"
  by (simp add: writer_abort_def Let_def split: option.splits sstate.splits prod.splits sum.splits)

lemma trace_writer_release [simp]: "trace (writer_release w W) = trace W @ [ReleaseLock w]"
  by (simp add: writer_release_def Let_def split: option.splits)

lemma trace_getWriter [simp]: "trace (snd (getWriter i W)) = trace W @ [GetWriter i]"
  by (simp add: getWriter_def Let_def split: option.splits)

lemma writer_close_ok:
  assumes "attached W w = Some i" and "s_state (streams W ! i) = Writable"
    and "u_close U (s_sink (streams W ! i)) = (Inr (), u)"
  shows "writer_close U w W =
    (Inr (), set_stream i ((streams W ! i)\<lparr>s_sink := u, s_state := Closed\<rparr>) (log (Close w) W))"
  using assms by (simp add: writer_close_def Let_def)

lemma writer_release_attached:
  assumes "attached W w = Some i"
  shows "writer_release w W =
    (log (ReleaseLock w) W)\<lparr>streams := (streams W)[i := (streams W ! i)\<lparr>s_writer := None\<rparr>],
                            writers := (writers W)[w := None]\<rparr>"
  using assms by (simp add: writer_release_def Let_def)

lemma locked_after_release:
  assumes "attached W w = Some i"
  shows "\<not> locked (writer_release w W) i"
  using assms attached_bound [OF assms]
  by (simp add: writer_release_attached locked_def)

text \<open>
  Claim C6. \<open>close\<close> signals \<open>return\<close> to the iterator, then closes the current
  consumer unless \<open>preventClose\<close> is set, then releases the writer: the calls recorded
  are exactly these, in this order, the consumer ends closed (or as it was, under
  \<open>preventClose\<close>) and unlocked.
\<close>

theorem close_order:
  assumes "iter s = Some c" and "c_return C = Some ret" and "ret c = (Inr (), c')"
    and "writer s = Some w" and "attached W w = Some i"
    and "\<not> prevent_close s \<Longrightarrow>
           s_state (streams W ! i) = Writable \<and> fst (u_close U (s_sink (streams W ! i))) = Inr ()"
  shows "\<exists>W'. close C U (s, W) = (Inr (), (s\<lparr>iter := Some c'\<rparr>, W'))
           \<and> since W W' = (if prevent_close s then [CursorReturn, ReleaseLock w]
                           else [CursorReturn, Close w, ReleaseLock w])
           \<and> s_state (streams W' ! i) = (if prevent_close s then s_state (streams W ! i) else Closed)
           \<and> \<not> locked W' i"
proof (cases "prevent_close s")
  case True
  have ib: "i < length (streams W)" using assms(5) by (rule attached_bound)
  from True assms(1-5) ib show ?thesis
    by (simp add: close_def iter_return_def release_current_def prevent_close_def since_def
        writer_release_attached locked_def)
next
  case False
  have ib: "i < length (streams W)" using assms(5) by (rule attached_bound)
  from False assms(6) obtain u where u: "u_close U (s_sink (streams W ! i)) = (Inr (), u)"
    and wr: "s_state (streams W ! i) = Writable"
    by (cases "u_close U (s_sink (streams W ! i))") auto
  have a1: "attached (log CursorReturn W) w = Some i" using assms(5) by simp
  from False assms(1-5) ib u wr show ?thesis
    by (simp add: close_def iter_return_def release_current_def prevent_close_def since_def
        writer_close_ok [where i = i and u = u] writer_release_attached [where i = i] locked_def)
qed

lemma writer_abort_writable:
  assumes "attached W w = Some i" and "s_state (streams W ! i) = Writable"
    and "u_abort U reason (s_sink (streams W ! i)) = (r, u)"
  shows "writer_abort U w reason W =
    (r, set_stream i ((streams W ! i)\<lparr>s_sink := u, s_state := Errored reason\<rparr>) (log (Abort w reason) W))"
  using assms by (simp add: writer_abort_def Let_def)

lemma writer_abort_settled:
  assumes "attached W w = Some i" and "s_state (streams W ! i) \<noteq> Writable"
  shows "writer_abort U w reason W = (Inr (), log (Abort w reason) W)"
  using assms by (simp add: writer_abort_def Let_def split: sstate.splits)

text \<open>
  Claim C7. \<open>abort(reason)\<close> signals \<open>throw(reason)\<close> to the iterator and ignores
  whatever that call returns or throws (\<open>r0\<close> is arbitrary), then aborts the current
  consumer with the same reason unless \<open>preventAbort\<close> is set, then releases the
  writer.
\<close>

theorem abort_order:
  assumes "iter s = Some c" and "c_throw C = Some thr" and "thr reason c = (r0, c')"
    and "writer s = Some w" and "attached W w = Some i"
    and "\<not> prevent_abort s \<Longrightarrow> s_state (streams W ! i) = Writable \<Longrightarrow>
           fst (u_abort U reason (s_sink (streams W ! i))) = Inr ()"
  shows "\<exists>W'. abort C U reason (s, W) = (Inr (), (s\<lparr>iter := Some c'\<rparr>, W'))
           \<and> since W W' = (if prevent_abort s then [CursorThrow reason, ReleaseLock w]
                           else [CursorThrow reason, Abort w reason, ReleaseLock w])
           \<and> (\<not> prevent_abort s \<and> s_state (streams W ! i) = Writable \<longrightarrow>
                s_state (streams W' ! i) = Errored reason)
           \<and> \<not> locked W' i"
proof -
  have ib: "i < length (streams W)" using assms(5) by (rule attached_bound)
  show ?thesis
  proof (cases "prevent_abort s")
    case True
    from True assms(1-5) ib show ?thesis
      by (simp add: abort_def iter_throw_def release_current_def prevent_abort_def since_def
          writer_release_attached locked_def)
  next
    case False
    show ?thesis
    proof (cases "s_state (streams W ! i) = Writable")
      case wr: True
      with False assms(6) obtain u where u: "u_abort U reason (s_sink (streams W ! i)) = (Inr (), u)"
        by (cases "u_abort U reason (s_sink (streams W ! i))") auto
      from False assms(1-5) ib u wr show ?thesis
        by (simp add: abort_def iter_throw_def release_current_def prevent_abort_def since_def
            writer_abort_writable [where i = i and u = u] writer_release_attached [where i = i]
            locked_def)
    next
      case nwr: False
      from False assms(1-5) ib nwr show ?thesis
        by (simp add: abort_def iter_throw_def release_current_def prevent_abort_def since_def
            writer_abort_settled [where i = i] writer_release_attached [where i = i]
            locked_def)
    qed
  qed
qed

lemma since_refl [simp]: "since W W = []"
  by (simp add: since_def)

lemma since_append: "trace W' = trace W @ t \<Longrightarrow> since W W' = t"
  by (simp add: since_def)

lemma submit_trace:
  "trace (snd (submit U w x W)) =
     trace W @ Ready w # (if fst (writer_ready w W) = Inr () then [Write w x] else [])"
proof (cases "writer_ready w W")
  case (Pair r W1)
  have t1: "trace W1 = trace W @ [Ready w]"
    using trace_writer_ready [of w W] Pair by simp
  show ?thesis
  proof (cases r)
    case (Inl e)
    with Pair t1 show ?thesis by (simp add: submit_def)
  next
    case (Inr u)
    have "trace (snd (writer_write U w x W1)) = trace W1 @ [Write w x]" by simp
    with Pair Inr t1 show ?thesis by (simp add: submit_def)
  qed
qed

lemma sink_next_trace:
  assumes "iter s = Some c"
  shows "\<exists>t. trace (snd (snd (sink_next C r (s, W)))) = trace W @ CursorNext r # t
           \<and> filter is_advance t = [] \<and> filter is_write t = []"
proof (cases "c_next C r c")
  case (Pair res c')
  show ?thesis
  proof (cases res)
    case (Inl e)
    with Pair assms show ?thesis by (simp add: sink_next_def)
  next
    case (Inr ir)
    show ?thesis
    proof (cases ir)
      case IterDone
      with Pair Inr assms show ?thesis by (simp add: sink_next_def)
    next
      case (IterYield v)
      let ?W1 = "release_current s (log (CursorNext r) W)"
      have t1: "\<exists>t. trace ?W1 = trace W @ CursorNext r # t \<and> filter is_advance t = []
                  \<and> filter is_write t = []"
        by (cases "writer s") (simp_all add: release_current_def)
      then obtain t where t: "trace ?W1 = trace W @ CursorNext r # t" "filter is_advance t = []"
        "filter is_write t = []" by blast
      have t2: "trace (snd (getWriter v ?W1)) = trace ?W1 @ [GetWriter v]" by simp
      obtain r2 W2 where g: "getWriter v ?W1 = (r2, W2)" by (cases "getWriter v ?W1")
      with t2 t have "trace W2 = trace W @ CursorNext r # (t @ [GetWriter v])" by simp
      moreover have "filter is_advance (t @ [GetWriter v]) = []" using t by simp
      moreover have "filter is_write (t @ [GetWriter v]) = []" using t by simp
      moreover have "snd (snd (sink_next C r (s, W))) = W2"
        using Pair Inr IterYield assms g by (cases r2) (simp_all add: sink_next_def Let_def)
      ultimately show ?thesis by metis
    qed
  qed
qed

lemma attached_writer_ready [simp]: "attached (snd (writer_ready w W)) w' = attached W w'"
  by (simp add: writer_ready_def Let_def split: option.splits sstate.splits)

lemma attached_writer_write [simp]: "attached (snd (writer_write U w x W)) w' = attached W w'"
  by (simp add: writer_write_def Let_def split: option.splits sstate.splits prod.splits sum.splits)

lemma attached_submit [simp]: "attached (snd (submit U w x W)) w' = attached W w'"
proof (cases "writer_ready w W")
  case (Pair r W1)
  have a1: "attached W1 w' = attached W w'"
    using attached_writer_ready [of w W w'] Pair by simp
  show ?thesis
  proof (cases r)
    case (Inl e)
    with Pair a1 show ?thesis by (simp add: submit_def)
  next
    case (Inr u)
    have "attached (snd (writer_write U w x W1)) w' = attached W1 w'" by simp
    with Pair Inr a1 show ?thesis by (simp add: submit_def)
  qed
qed

lemma getWriter_Inr:
  assumes "getWriter v W = (Inr nw, W2)"
  shows "attached W2 nw = Some v \<and> nw = length (writers W)"
  using assms
  by (auto simp: getWriter_def Let_def attached_def nth_append split: if_splits option.splits)

lemma sink_next_Inr:
  assumes "sink_next C r (s, W) = (Inr nw, (s2, W2))"
  shows "\<exists>c v c'. iter s = Some c \<and> c_next C r c = (Inr (IterYield v), c')
           \<and> s2 = s\<lparr>iter := Some c', writer := Some nw\<rparr> \<and> attached W2 nw = Some v"
proof -
  from assms obtain c where c: "iter s = Some c"
    by (cases "iter s") (simp_all add: sink_next_def)
  obtain res c' where n: "c_next C r c = (res, c')" by (cases "c_next C r c")
  from assms c n obtain v where v: "res = Inr (IterYield v)"
    by (cases res; simp add: sink_next_def split: iter_result.splits)
  let ?W1 = "release_current s (log (CursorNext r) W)"
  obtain r2 W3 where g: "getWriter v ?W1 = (r2, W3)" by (cases "getWriter v ?W1")
  from assms c n v g have r2: "r2 = Inr nw" and s2: "s2 = s\<lparr>iter := Some c', writer := Some nw\<rparr>"
    and w: "W3 = W2"
    by (cases r2; simp add: sink_next_def Let_def)+
  from g r2 w have "attached W2 nw = Some v" using getWriter_Inr by blast
  with c n v s2 show ?thesis by blast
qed

lemma writer_ready_trace_eq:
  assumes "writer_ready w W = (r, W1)" shows "trace W1 = trace W @ [Ready w]"
  using trace_writer_ready [of w W] assms by simp

lemma submit_ready_Inl:
  assumes "writer_ready w W = (Inl err, W1)"
  shows "submit U w chunk W = (Inl err, W1)"
  using assms by (simp add: submit_def)

lemma sink_write_retry:
  assumes "writer s = Some w" and "submit U w chunk W = (Inl err, W1)"
  shows "sink_write C U chunk (s, W) =
     (case sink_next C err (s, W1) of
        (Inl e, cfg2) \<Rightarrow> (Inl e, cfg2)
      | (Inr nw, (s2, W2)) \<Rightarrow> (case submit U nw chunk W2 of (r, W3) \<Rightarrow> (r, (s2, W3))))"
  using assms by (simp add: sink_write_def)

lemma retry_trace:
  assumes "writer s = Some w" and "iter s = Some c" and "submit U w chunk W = (Inl err, W1)"
    and "trace W1 = trace W @ t0" and "filter is_advance t0 = []"
  shows "filter is_advance (since W (snd (snd (sink_write C U chunk (s, W))))) = [CursorNext err]"
proof -
  obtain t where t: "trace (snd (snd (sink_next C err (s, W1)))) = trace W1 @ CursorNext err # t"
    "filter is_advance t = []"
    using sink_next_trace [OF assms(2), of C err W1] by blast
  obtain rn s2 W2 where n: "sink_next C err (s, W1) = (rn, (s2, W2))"
    by (cases "sink_next C err (s, W1)") auto
  show ?thesis
  proof (cases rn)
    case (Inl e)
    with n assms(1,3) have "sink_write C U chunk (s, W) = (Inl e, (s2, W2))"
      by (simp add: sink_write_retry)
    with t n assms(4,5) show ?thesis by (simp add: since_def)
  next
    case (Inr nw)
    obtain r W3 where sb: "submit U nw chunk W2 = (r, W3)" by (cases "submit U nw chunk W2")
    with Inr n assms(1,3) have sw: "sink_write C U chunk (s, W) = (r, (s2, W3))"
      by (simp add: sink_write_retry)
    have "trace W3 = trace W2 @ Ready nw # (if fst (writer_ready nw W2) = Inr () then [Write nw chunk] else [])"
      using submit_trace [of U nw chunk W2] sb by simp
    with t n assms(4,5) sw show ?thesis by (simp add: since_def)
  qed
qed

text \<open>
  Claim C10. When \<open>await writer.ready\<close> rejects with \<open>err\<close>, \<open>write\<close> does
  what it does when the submission is rejected: the chunk is not written to the current
  writer, the iterator's \<open>next\<close> is called once, with \<open>err\<close>, and the chunk is
  submitted to the writer that the advance returns.
\<close>

theorem ready_rejection_advances:
  assumes "writer s = Some w" and "iter s = Some c" and "writer_ready w W = (Inl err, W1)"
  shows "sink_write C U chunk (s, W) =
           (case sink_next C err (s, W1) of
              (Inl e, cfg2) \<Rightarrow> (Inl e, cfg2)
            | (Inr nw, (s2, W2)) \<Rightarrow> (case submit U nw chunk W2 of (r, W3) \<Rightarrow> (r, (s2, W3))))
         \<and> since W W1 = [Ready w]
         \<and> filter is_advance (since W (snd (snd (sink_write C U chunk (s, W))))) = [CursorNext err]"
proof -
  have sb: "submit U w chunk W = (Inl err, W1)" using assms(3) by (rule submit_ready_Inl)
  have t1: "trace W1 = trace W @ [Ready w]" using assms(3) by (rule writer_ready_trace_eq)
  have "filter is_advance (since W (snd (snd (sink_write C U chunk (s, W))))) = [CursorNext err]"
    using assms(1,2) sb t1 by (rule retry_trace) simp
  moreover have "since W W1 = [Ready w]" using t1 by (simp add: since_def)
  ultimately show ?thesis using sink_write_retry [OF assms(1) sb] by simp
qed

text \<open>
  Claim C3. When the submission of a chunk to the current writer fails with \<open>err\<close>,
  \<open>write\<close> calls the iterator's \<open>next\<close> exactly once, with \<open>err\<close>. Either that
  advance fails, its error is the result and nothing more is submitted; or it yields a
  writer \<open>nw\<close> on the next stream, the same chunk is submitted to \<open>nw\<close> once, the
  outcome of that submission is the result as it is, and \<open>nw\<close> is installed as the
  current writer, attached to the stream the iterator yielded.
\<close>

theorem write_failure_retries_once:
  assumes "writer s = Some w" and "iter s = Some c" and "submit U w chunk W = (Inl err, W1)"
  shows "(\<exists>e cfg2. sink_next C err (s, W1) = (Inl e, cfg2)
            \<and> sink_write C U chunk (s, W) = (Inl e, cfg2)
            \<and> filter is_advance (since W (snd cfg2)) = [CursorNext err]
            \<and> filter is_write (since W1 (snd cfg2)) = [])
       \<or> (\<exists>nw s2 W2 r W3 v. sink_next C err (s, W1) = (Inr nw, (s2, W2))
            \<and> submit U nw chunk W2 = (r, W3)
            \<and> sink_write C U chunk (s, W) = (r, (s2, W3))
            \<and> filter is_advance (since W W3) = [CursorNext err]
            \<and> since W2 W3 = Ready nw # (if fst (writer_ready nw W2) = Inr () then [Write nw chunk] else [])
            \<and> fst (c_next C err c) = Inr (IterYield v)
            \<and> writer s2 = Some nw \<and> attached W3 nw = Some v)"
proof -
  have t0: "trace W1 = trace W @ Ready w # (if fst (writer_ready w W) = Inr () then [Write w chunk] else [])"
    using submit_trace [of U w chunk W] assms(3) by simp
  have adv: "filter is_advance (since W (snd (snd (sink_write C U chunk (s, W))))) = [CursorNext err]"
    using assms t0 by (rule retry_trace) simp
  obtain rn s2 W2 where n: "sink_next C err (s, W1) = (rn, (s2, W2))"
    by (cases "sink_next C err (s, W1)") auto
  obtain t where t: "trace W2 = trace W1 @ CursorNext err # t" "filter is_write t = []"
    using sink_next_trace [OF assms(2), of C err W1] n by auto
  show ?thesis
  proof (cases rn)
    case (Inl e)
    with n assms(1,3) have sw: "sink_write C U chunk (s, W) = (Inl e, (s2, W2))"
      by (simp add: sink_write_retry)
    have "filter is_write (since W1 W2) = []" using t by (simp add: since_def)
    with Inl n sw adv show ?thesis by simp
  next
    case (Inr nw)
    obtain r W3 where sb: "submit U nw chunk W2 = (r, W3)" by (cases "submit U nw chunk W2")
    with Inr n assms(1,3) have sw: "sink_write C U chunk (s, W) = (r, (s2, W3))"
      by (simp add: sink_write_retry)
    from n Inr obtain c0 v c' where nx: "iter s = Some c0" "c_next C err c0 = (Inr (IterYield v), c')"
      "s2 = s\<lparr>iter := Some c', writer := Some nw\<rparr>" "attached W2 nw = Some v"
      using sink_next_Inr by blast
    have a3: "attached W3 nw = Some v" using attached_submit [of U nw chunk W2 nw] sb nx(4) by simp
    have tr: "since W2 W3 = Ready nw # (if fst (writer_ready nw W2) = Inr () then [Write nw chunk] else [])"
      using submit_trace [of U nw chunk W2] sb by (simp add: since_def)
    have "c0 = c" using nx(1) assms(2) by simp
    with nx have "fst (c_next C err c) = Inr (IterYield v)" "writer s2 = Some nw" by simp_all
    with Inr n sb sw adv tr a3 show ?thesis by simp
  qed
qed

lemma getWriter_ok:
  assumes "v < length (streams W)" and "s_writer (streams W ! v) = None"
  shows "getWriter v W =
    (Inr (length (writers W)),
     (log (GetWriter v) W)\<lparr>streams := (streams W)[v := (streams W ! v)\<lparr>s_writer := Some (length (writers W))\<rparr>],
                          writers := writers W @ [Some v]\<rparr>)"
  using assms by (simp add: getWriter_def Let_def)

text \<open>
  Claim C5, amended to the order of the code. An advance first pulls the next item from
  the iterator, then releases the current writer, then acquires a writer on the yielded
  stream; the stream left behind is neither closed nor aborted (its state and underlying
  sink are unchanged). When the iterator reports done the advance fails right after the
  pull, and the current writer stays attached.
\<close>

theorem advance_order:
  assumes "iter s = Some c" and "writer s = Some w" and "attached W w = Some i"
  shows "(\<forall>v c'. c_next C reason c = (Inr (IterYield v), c') \<and> v < length (streams W)
              \<and> (v = i \<or> s_writer (streams W ! v) = None) \<longrightarrow>
            (\<exists>W'. sink_next C reason (s, W) =
                     (Inr (length (writers W)),
                      (s\<lparr>iter := Some c', writer := Some (length (writers W))\<rparr>, W'))
               \<and> since W W' = [CursorNext reason, ReleaseLock w, GetWriter v]
               \<and> attached W' w = None
               \<and> attached W' (length (writers W)) = Some v
               \<and> (v \<noteq> i \<longrightarrow> \<not> locked W' i)
               \<and> s_state (streams W' ! i) = s_state (streams W ! i)
               \<and> s_sink (streams W' ! i) = s_sink (streams W ! i)))
       \<and> (\<forall>c'. c_next C reason c = (Inr IterDone, c') \<longrightarrow>
            sink_next C reason (s, W) =
              (Inl (RangeError ''Writable stream iterator has ended''),
               (s\<lparr>iter := Some c'\<rparr>, log (CursorNext reason) W))
            \<and> attached (log (CursorNext reason) W) w = Some i)"
proof (intro conjI allI impI)
  fix v c'
  assume h: "c_next C reason c = (Inr (IterYield v), c') \<and> v < length (streams W)
              \<and> (v = i \<or> s_writer (streams W ! v) = None)"
  have ib: "i < length (streams W)" using assms(3) by (rule attached_bound)
  have wb: "w < length (writers W)" using assms(3) by (simp add: attached_def split: if_splits)
  let ?W0 = "log (CursorNext reason) W"
  let ?W1 = "writer_release w ?W0"
  have a0: "attached ?W0 w = Some i" using assms(3) by simp
  have W1: "?W1 = (log (ReleaseLock w) ?W0)\<lparr>streams := (streams W)[i := (streams W ! i)\<lparr>s_writer := None\<rparr>],
                            writers := (writers W)[w := None]\<rparr>"
    using writer_release_attached [OF a0] by simp
  have v1: "v < length (streams ?W1)" using h by (simp add: W1)
  have v2: "s_writer (streams ?W1 ! v) = None" using h ib by (auto simp: W1 nth_list_update)
  note g = getWriter_ok [OF v1 v2]
  have len: "length (writers ?W1) = length (writers W)" by (simp add: W1)
  show "\<exists>W'. sink_next C reason (s, W) =
                     (Inr (length (writers W)),
                      (s\<lparr>iter := Some c', writer := Some (length (writers W))\<rparr>, W'))
               \<and> since W W' = [CursorNext reason, ReleaseLock w, GetWriter v]
               \<and> attached W' w = None
               \<and> attached W' (length (writers W)) = Some v
               \<and> (v \<noteq> i \<longrightarrow> \<not> locked W' i)
               \<and> s_state (streams W' ! i) = s_state (streams W ! i)
               \<and> s_sink (streams W' ! i) = s_sink (streams W ! i)"
    using assms(1,2) h ib wb
    apply (simp add: sink_next_def release_current_def Let_def g len)
    apply (simp add: W1 since_def attached_def locked_def nth_append nth_list_update)
    done
next
  fix c'
  assume "c_next C reason c = (Inr IterDone, c')"
  then show "sink_next C reason (s, W) =
              (Inl (RangeError ''Writable stream iterator has ended''),
               (s\<lparr>iter := Some c'\<rparr>, log (CursorNext reason) W))"
    using assms(1) by (simp add: sink_next_def)
next
  fix c'
  show "attached (log (CursorNext reason) W) w = Some i" using assms(3) by simp
qed

section \<open>The lock discipline\<close>

lemma same_locks_refl [simp]: "same_locks W W"
  by (simp add: same_locks_def)

lemma same_locks_trans: "same_locks W W1 \<Longrightarrow> same_locks W1 W2 \<Longrightarrow> same_locks W W2"
  by (simp add: same_locks_def)

lemma same_locks_log [simp]: "same_locks W (log e W)"
  by (simp add: same_locks_def)

lemma same_locks_set_stream:
  assumes "i < length (streams W)" and "s_writer st = s_writer (streams W ! i)"
  shows "same_locks W (set_stream i st (log e W))"
  using assms by (simp add: same_locks_def nth_list_update)

lemma same_locks_writer_ready: "same_locks W (snd (writer_ready w W))"
  by (simp add: writer_ready_def Let_def split: option.splits sstate.splits)

lemma same_locks_writer_close: "same_locks W (snd (writer_close U w W))"
proof (cases "attached W w")
  case None
  then show ?thesis by (simp add: writer_close_def Let_def)
next
  case (Some i)
  then have ib: "i < length (streams W)" by (rule attached_bound)
  obtain r u where u: "u_close U (s_sink (streams W ! i)) = (r, u)"
    by (cases "u_close U (s_sink (streams W ! i))")
  show ?thesis
    using Some u ib
    by (cases "s_state (streams W ! i)"; cases r)
       (simp_all add: writer_close_def Let_def same_locks_set_stream)
qed

lemma same_locks_writer_abort: "same_locks W (snd (writer_abort U w reason W))"
proof (cases "attached W w")
  case None
  then show ?thesis by (simp add: writer_abort_def Let_def)
next
  case (Some i)
  then have ib: "i < length (streams W)" by (rule attached_bound)
  obtain r u where u: "u_abort U reason (s_sink (streams W ! i)) = (r, u)"
    by (cases "u_abort U reason (s_sink (streams W ! i))")
  show ?thesis
    using Some u ib
    by (cases "s_state (streams W ! i)")
       (simp_all add: writer_abort_def Let_def same_locks_set_stream)
qed

lemma wf_world_writer:
  "wf_world W \<Longrightarrow> w < length (writers W) \<Longrightarrow> writers W ! w = Some i \<Longrightarrow>
     i < length (streams W) \<and> s_writer (streams W ! i) = Some w"
  unfolding wf_world_def by blast

lemma wf_world_stream:
  "wf_world W \<Longrightarrow> i < length (streams W) \<Longrightarrow> s_writer (streams W ! i) = Some w \<Longrightarrow>
     w < length (writers W) \<and> writers W ! w = Some i"
  unfolding wf_world_def by blast

lemma wf_world_same_locks:
  assumes "wf_world W" and "same_locks W W'"
  shows "wf_world W'"
proof -
  from assms(2) have w: "writers W' = writers W" and l: "length (streams W') = length (streams W)"
    and s: "\<And>i. i < length (streams W) \<Longrightarrow> s_writer (streams W' ! i) = s_writer (streams W ! i)"
    unfolding same_locks_def by blast+
  show ?thesis
    unfolding wf_world_def w l
  proof (intro conjI allI impI)
    fix w' i assume a: "w' < length (writers W)" "writers W ! w' = Some i"
    from wf_world_writer [OF assms(1) a]
    show "i < length (streams W)" "s_writer (streams W' ! i) = Some w'"
      using s [of i] by auto
  next
    fix i w' assume a: "i < length (streams W)" "s_writer (streams W' ! i) = Some w'"
    then have "s_writer (streams W ! i) = Some w'" using s [of i] by simp
    from wf_world_stream [OF assms(1) a(1) this]
    show "w' < length (writers W)" "writers W ! w' = Some i" by auto
  qed
qed

lemma no_live_same_locks: "no_live W \<Longrightarrow> same_locks W W' \<Longrightarrow> no_live W'"
  by (simp add: no_live_def same_locks_def)

lemma sole_holderI:
  assumes "wf_world W"
    and "\<And>w i. w < length (writers W) \<Longrightarrow> writers W ! w = Some i \<Longrightarrow> writer s = Some w"
    and "\<And>w. writer s = Some w \<Longrightarrow> w < length (writers W)"
  shows "sole_holder (s, W)"
proof -
  have "case writer s of None \<Rightarrow> True | Some w \<Rightarrow> w < length (writers W)"
    using assms(3) by (cases "writer s") simp_all
  moreover have "\<forall>w < length (writers W). writers W ! w \<noteq> None \<longrightarrow> writer s = Some w"
    using assms(2) by blast
  ultimately show ?thesis using assms(1) unfolding sole_holder_def by blast
qed

lemma sole_holder_wf: "sole_holder (s, W) \<Longrightarrow> wf_world W"
  unfolding sole_holder_def by blast

lemma sole_holder_live:
  "sole_holder (s, W) \<Longrightarrow> w < length (writers W) \<Longrightarrow> writers W ! w = Some i \<Longrightarrow> writer s = Some w"
  unfolding sole_holder_def by blast

lemma sole_holder_bound:
  assumes "sole_holder (s, W)" and "writer s = Some w"
  shows "w < length (writers W)"
proof -
  from assms(1) have "case writer s of None \<Rightarrow> True | Some w \<Rightarrow> w < length (writers W)"
    unfolding sole_holder_def by blast
  with assms(2) show ?thesis by simp
qed

lemma sole_holder_same_locks:
  assumes "sole_holder (s, W)" and "same_locks W W'" and "writer s' = writer s"
  shows "sole_holder (s', W')"
proof (rule sole_holderI)
  show "wf_world W'" using sole_holder_wf [OF assms(1)] assms(2) by (rule wf_world_same_locks)
next
  from assms(2) have w: "writers W' = writers W" unfolding same_locks_def by blast
  {
    fix w i assume "w < length (writers W')" "writers W' ! w = Some i"
    then show "writer s' = Some w" using sole_holder_live [OF assms(1), of w i] w assms(3) by simp
  next
    fix w assume "writer s' = Some w"
    then show "w < length (writers W')" using sole_holder_bound [OF assms(1), of w] w assms(3) by simp
  }
qed

lemma no_live_unlocked:
  assumes "wf_world W" and "no_live W" shows "\<not> locked W i"
proof
  assume "locked W i"
  then obtain w where "i < length (streams W)" "s_writer (streams W ! i) = Some w"
    by (auto simp: locked_def)
  with assms(1) have "w < length (writers W)" "writers W ! w = Some i"
    using wf_world_stream by blast+
  with assms(2) show False by (simp add: no_live_def)
qed

lemma sole_holder_no_live:
  assumes "wf_world W" and "no_live W" and "\<And>w. writer s = Some w \<Longrightarrow> w < length (writers W)"
  shows "sole_holder (s, W)"
proof (rule sole_holderI)
  fix w i assume "w < length (writers W)" "writers W ! w = Some i"
  with assms(2) show "writer s = Some w" by (simp add: no_live_def)
qed (use assms in auto)


lemma same_locks_writer_write: "same_locks W (snd (writer_write U w x W))"
proof (cases "attached W w")
  case None
  then show ?thesis by (simp add: writer_write_def Let_def)
next
  case (Some i)
  then have ib: "i < length (streams W)" by (rule attached_bound)
  obtain r u where u: "u_write U x (s_sink (streams W ! i)) = (r, u)"
    by (cases "u_write U x (s_sink (streams W ! i))")
  show ?thesis
    using Some u ib
    by (cases "s_state (streams W ! i)"; cases r)
       (simp_all add: writer_write_def Let_def same_locks_set_stream)
qed


lemma same_locks_submit: "same_locks W (snd (submit U w x W))"
proof (cases "writer_ready w W")
  case (Pair r W1)
  have l1: "same_locks W W1" using same_locks_writer_ready [of W w] Pair by simp
  show ?thesis
  proof (cases r)
    case (Inl e)
    with Pair l1 show ?thesis by (simp add: submit_def)
  next
    case (Inr u)
    have "same_locks W1 (snd (writer_write U w x W1))" by (rule same_locks_writer_write)
    with l1 have "same_locks W (snd (writer_write U w x W1))" by (rule same_locks_trans)
    with Pair Inr show ?thesis by (simp add: submit_def)
  qed
qed

lemma attached_released [simp]: "attached (writer_release w W) w = None"
proof (cases "attached W w")
  case None
  then show ?thesis by (simp add: writer_release_def Let_def)
next
  case (Some i)
  then have "w < length (writers W)" by (simp add: attached_def split: if_splits)
  with Some show ?thesis by (simp add: writer_release_attached attached_def)
qed

lemma wf_worldI:
  assumes "\<And>w i. w < length (writers W) \<Longrightarrow> writers W ! w = Some i \<Longrightarrow>
             i < length (streams W) \<and> s_writer (streams W ! i) = Some w"
    and "\<And>i w. i < length (streams W) \<Longrightarrow> s_writer (streams W ! i) = Some w \<Longrightarrow>
             w < length (writers W) \<and> writers W ! w = Some i"
  shows "wf_world W"
  unfolding wf_world_def using assms by blast

lemma release_current_no_live:
  assumes "sole_holder (s, W)"
  shows "wf_world (release_current s W) \<and> no_live (release_current s W)"
proof -
  have wf: "wf_world W" using assms by (rule sole_holder_wf)
  show ?thesis
  proof (cases "writer s")
    case None
    have "no_live W"
      unfolding no_live_def
    proof (intro allI impI)
      fix w assume "w < length (writers W)"
      then show "writers W ! w = None"
        using sole_holder_live [OF assms, of w] None by (cases "writers W ! w") auto
    qed
    with wf None show ?thesis by (simp add: release_current_def)
  next
    case (Some w)
    show ?thesis
    proof (cases "attached W w")
      case None
      have nl: "no_live W"
        unfolding no_live_def
      proof (intro allI impI)
        fix w' assume b: "w' < length (writers W)"
        show "writers W ! w' = None"
        proof (cases "writers W ! w'")
          case (Some i)
          with sole_holder_live [OF assms b] \<open>writer s = Some w\<close> have "w' = w" by simp
          moreover from wf_world_writer [OF wf b Some] have "i < length (streams W)" by simp
          ultimately have "attached W w = Some i" using b Some by (simp add: attached_def)
          with None show ?thesis by simp
        qed simp
      qed
      have "release_current s W = log (ReleaseLock w) W"
        using Some None by (simp add: release_current_def writer_release_def Let_def)
      moreover have "same_locks W (log (ReleaseLock w) W)" by simp
      ultimately show ?thesis using wf nl
        by (auto intro: wf_world_same_locks no_live_same_locks)
    next
      case att: (Some i)
      have ib: "i < length (streams W)" using att by (rule attached_bound)
      have wb: "w < length (writers W)" and wi: "writers W ! w = Some i"
        using att by (auto simp: attached_def split: if_splits option.splits)
      have eq: "release_current s W =
          (log (ReleaseLock w) W)\<lparr>streams := (streams W)[i := (streams W ! i)\<lparr>s_writer := None\<rparr>],
                                  writers := (writers W)[w := None]\<rparr>"
        using Some att by (simp add: release_current_def writer_release_attached)
      have sole: "\<And>w' j. w' < length (writers W) \<Longrightarrow> writers W ! w' = Some j \<Longrightarrow> w' = w"
        using sole_holder_live [OF assms] Some by simp
      have nl: "no_live (release_current s W)"
        unfolding no_live_def
      proof (intro allI impI)
        fix w' assume "w' < length (writers (release_current s W))"
        then have b: "w' < length (writers W)" by (simp add: eq)
        show "writers (release_current s W) ! w' = None"
        proof (cases "w' = w")
          case True
          with b show ?thesis by (simp add: eq)
        next
          case False
          with sole [OF b] have "writers W ! w' = None" by (cases "writers W ! w'") auto
          with False b show ?thesis by (simp add: eq)
        qed
      qed
      have "wf_world (release_current s W)"
      proof (rule wf_worldI)
        fix w' j assume "w' < length (writers (release_current s W))"
          and "writers (release_current s W) ! w' = Some j"
        with nl show "j < length (streams (release_current s W)) \<and>
            s_writer (streams (release_current s W) ! j) = Some w'"
          by (simp add: no_live_def)
      next
        fix j w' assume j: "j < length (streams (release_current s W))"
          and sw: "s_writer (streams (release_current s W) ! j) = Some w'"
        from j have jb: "j < length (streams W)" by (simp add: eq)
        from sw jb have ji: "j \<noteq> i" by (auto simp: eq nth_list_update split: if_splits)
        with sw jb have "s_writer (streams W ! j) = Some w'" by (simp add: eq nth_list_update)
        from wf_world_stream [OF wf jb this] have w': "w' < length (writers W)" "writers W ! w' = Some j"
          by simp_all
        with sole have "w' = w" by blast
        with w' wi ji show "w' < length (writers (release_current s W)) \<and>
            writers (release_current s W) ! w' = Some j" by simp
      qed
      with nl show ?thesis by simp
    qed
  qed
qed

lemma wf_world_log: "wf_world W \<Longrightarrow> wf_world (log e W)"
  by (rule wf_world_same_locks [OF _ same_locks_log])

lemma no_live_log: "no_live W \<Longrightarrow> no_live (log e W)"
  by (simp add: no_live_def)

lemma getWriter_sole:
  assumes "wf_world W" and "no_live W" and "getWriter v W = (r, W')"
  shows "wf_world W' \<and> (case r of Inl e \<Rightarrow> no_live W'
           | Inr nw \<Rightarrow> (\<forall>w < length (writers W'). writers W' ! w \<noteq> None \<longrightarrow> w = nw)
                       \<and> (\<forall>i. locked W' i \<longrightarrow> attached W' nw = Some i))"
proof (cases "v < length (streams W) \<and> s_writer (streams W ! v) = None")
  case False
  then have "(r = Inl not_a_stream_error \<or> r = Inl locked_error) \<and> W' = log (GetWriter v) W"
    using assms(3) by (auto simp: getWriter_def Let_def split: option.splits if_splits)
  moreover have "wf_world (log (GetWriter v) W)" "no_live (log (GetWriter v) W)"
    using assms(1,2) by (simp_all add: wf_world_log no_live_log)
  ultimately show ?thesis by auto
next
  case True
  then have vb: "v < length (streams W)" and vn: "s_writer (streams W ! v) = None" by simp_all
  from assms(3) have r: "r = Inr (length (writers W))"
    and W': "W' = (log (GetWriter v) W)\<lparr>streams := (streams W)[v := (streams W ! v)\<lparr>s_writer := Some (length (writers W))\<rparr>],
                          writers := writers W @ [Some v]\<rparr>"
    by (simp_all add: getWriter_ok [OF vb vn])
  have unl: "\<And>i. i < length (streams W) \<Longrightarrow> s_writer (streams W ! i) = None"
    using no_live_unlocked [OF assms(1,2)] by (auto simp: locked_def)
  have nl: "\<And>w. w < length (writers W) \<Longrightarrow> writers W ! w = None"
    using assms(2) by (simp add: no_live_def)
  have wf: "wf_world W'"
  proof (rule wf_worldI)
    fix w i assume "w < length (writers W')" "writers W' ! w = Some i"
    then have "w = length (writers W) \<and> i = v"
      using nl [of w] by (auto simp: W' nth_append split: if_splits)
    then show "i < length (streams W') \<and> s_writer (streams W' ! i) = Some w"
      using vb by (simp add: W')
  next
    fix i w assume "i < length (streams W')" "s_writer (streams W' ! i) = Some w"
    then have "i = v \<and> w = length (writers W)"
      using unl [of i] vb by (auto simp: W' nth_list_update split: if_splits)
    then show "w < length (writers W') \<and> writers W' ! w = Some i"
      by (simp add: W')
  qed
  have one: "\<forall>w < length (writers W'). writers W' ! w \<noteq> None \<longrightarrow> w = length (writers W)"
    using nl by (auto simp: W' nth_append split: if_splits)
  have lk: "\<forall>i. locked W' i \<longrightarrow> attached W' (length (writers W)) = Some i"
  proof (intro allI impI)
    fix i assume "locked W' i"
    then have "i < length (streams W)" "s_writer (streams W' ! i) \<noteq> None"
      by (simp_all add: locked_def W')
    then have "i = v" using unl [of i] vb by (auto simp: W' nth_list_update split: if_splits)
    then show "attached W' (length (writers W)) = Some i"
      using vb by (simp add: W' attached_def)
  qed
  from wf one lk r show ?thesis by simp
qed


lemma length_writers_release [simp]: "length (writers (writer_release w W)) = length (writers W)"
  by (simp add: writer_release_def Let_def split: option.splits)

lemma length_writers_release_current [simp]:
  "length (writers (release_current s W)) = length (writers W)"
  by (simp add: release_current_def split: option.splits)

lemma sink_next_sole:
  assumes "sole_holder (s, W)" and "sink_next C r (s, W) = (res, (s', W'))"
  shows "sole_holder (s', W') \<and>
     (\<forall>nw. res = Inr nw \<longrightarrow> (\<forall>w. writer s = Some w \<longrightarrow> attached W' w = None)
                           \<and> (\<forall>i. locked W' i \<longrightarrow> attached W' nw = Some i))"
proof (cases "iter s")
  case None
  with assms show ?thesis by (auto simp: sink_next_def)
next
  case (Some c)
  obtain cr c' where n: "c_next C r c = (cr, c')" by (cases "c_next C r c")
  let ?W0 = "log (CursorNext r) W"
  have keep: "sole_holder (s\<lparr>iter := Some c'\<rparr>, ?W0)"
    using assms(1) by (rule sole_holder_same_locks) simp_all
  show ?thesis
  proof (cases cr)
    case (Inl e)
    with assms(2) Some n keep show ?thesis by (auto simp: sink_next_def)
  next
    case (Inr ir)
    show ?thesis
    proof (cases ir)
      case IterDone
      with assms(2) Some n Inr keep show ?thesis by (auto simp: sink_next_def)
    next
      case (IterYield v)
      let ?W1 = "release_current s ?W0"
      have "sole_holder (s, ?W0)" using assms(1) by (rule sole_holder_same_locks) simp_all
      then have W1: "wf_world ?W1" "no_live ?W1" using release_current_no_live by blast+
      obtain gr W2 where g: "getWriter v ?W1 = (gr, W2)" by (cases "getWriter v ?W1")
      note gs = getWriter_sole [OF W1 g]
      have bound: "\<forall>w. writer s = Some w \<longrightarrow> w < length (writers W)"
        using assms(1) sole_holder_bound by blast
      have len2: "length (writers W) \<le> length (writers W2)"
        using g by (auto simp: getWriter_def Let_def split: if_splits option.splits)
      show ?thesis
      proof (cases gr)
        case (Inl e)
        with assms(2) Some n Inr IterYield g have "res = Inl e" "s' = s\<lparr>iter := Some c'\<rparr>" "W' = W2"
          by (simp_all add: sink_next_def Let_def)
        moreover from gs Inl have w2: "wf_world W2" "no_live W2" by simp_all
        have "sole_holder (s\<lparr>iter := Some c'\<rparr>, W2)"
        proof (rule sole_holder_no_live [OF w2])
          fix w assume "writer (s\<lparr>iter := Some c'\<rparr>) = Some w"
          then show "w < length (writers W2)" using bound len2 by auto
        qed
        ultimately show ?thesis by simp
      next
        case (Inr nw)
        with assms(2) Some n \<open>cr = Inr ir\<close> IterYield g
        have res: "res = Inr nw" and s': "s' = s\<lparr>iter := Some c', writer := Some nw\<rparr>" and W': "W' = W2"
          by (simp_all add: sink_next_def Let_def)
        from gs Inr have wf2: "wf_world W2"
          and one: "\<forall>w < length (writers W2). writers W2 ! w \<noteq> None \<longrightarrow> w = nw"
          and lk: "\<forall>i. locked W2 i \<longrightarrow> attached W2 nw = Some i" by simp_all
        have "attached W2 nw = Some v \<and> nw = length (writers ?W1)"
          using g Inr by (intro getWriter_Inr) simp
        then have nw: "nw = length (writers W)" "attached W2 nw = Some v" by auto
        have nwb: "nw < length (writers W2)"
          using nw(2) by (simp add: attached_def split: if_splits)
        have sh: "sole_holder (s', W')"
          unfolding s' W'
        proof (rule sole_holderI)
          fix w i assume "w < length (writers W2)" "writers W2 ! w = Some i"
          with one have "w = nw" by auto
          then show "writer (s\<lparr>iter := Some c', writer := Some nw\<rparr>) = Some w" by simp
        qed (use wf2 nwb in auto)
        have old: "\<forall>w. writer s = Some w \<longrightarrow> attached W' w = None"
        proof (intro allI impI)
          fix w assume w: "writer s = Some w"
          with bound have wb: "w < length (writers W)" by simp
          with nw(1) have "w \<noteq> nw" by simp
          moreover have "w < length (writers W2)" using wb len2 by simp
          ultimately have "writers W2 ! w = None" using one by blast
          then show "attached W' w = None" by (simp add: W' attached_def)
        qed
        from sh old lk res W' show ?thesis by simp
      qed
    qed
  qed
qed

lemma iter_return_frame:
  assumes "iter_return C (s, W) = (r, (s1, W1))"
  shows "same_locks W W1 \<and> writer s1 = writer s \<and> options s1 = options s
         \<and> (\<forall>w. attached W1 w = attached W w)"
  using assms
  by (auto simp: iter_return_def split: option.splits prod.splits)

lemma iter_throw_frame:
  assumes "iter_throw C reason (s, W) = (r, (s1, W1))"
  shows "same_locks W W1 \<and> writer s1 = writer s \<and> options s1 = options s
         \<and> (\<forall>w. attached W1 w = attached W w)"
  using assms
  by (auto simp: iter_throw_def split: option.splits prod.splits)

lemma release_current_sole:
  assumes "sole_holder (s, W)"
  shows "sole_holder (s, release_current s W) \<and> (\<forall>i. \<not> locked (release_current s W) i)"
proof -
  from release_current_no_live [OF assms]
  have w: "wf_world (release_current s W)" "no_live (release_current s W)" by simp_all
  have "sole_holder (s, release_current s W)"
  proof (rule sole_holder_no_live [OF w])
    fix w assume "writer s = Some w"
    then show "w < length (writers (release_current s W))"
      using sole_holder_bound [OF assms] by simp
  qed
  then show ?thesis using no_live_unlocked [OF w] by simp
qed

lemma close_sole:
  assumes "sole_holder (s, W)" and "close C U (s, W) = (r, (s', W'))"
  shows "sole_holder (s', W') \<and> (r = Inr () \<longrightarrow> (\<forall>i. \<not> locked W' i))"
proof -
  obtain r0 s1 W1 where ir: "iter_return C (s, W) = (r0, (s1, W1))"
    by (cases "iter_return C (s, W)") auto
  from iter_return_frame [OF ir] have fr: "same_locks W W1" "writer s1 = writer s" by simp_all
  have sh1: "sole_holder (s1, W1)" using assms(1) fr by (rule sole_holder_same_locks)
  show ?thesis
  proof (cases r0)
    case (Inl e)
    with assms(2) ir sh1 show ?thesis by (auto simp: close_def)
  next
    case (Inr u)
    define fw where "fw = (if \<not> prevent_close s1
                 then (case writer s1 of
                         None \<Rightarrow> (Inr (), W1)
                       | Some w \<Rightarrow> writer_close U w W1)
                 else (Inr (), W1))"
    obtain r2 W2 where fw2: "fw = (r2, W2)" by (cases fw)
    have "same_locks W1 (snd fw)"
      using same_locks_writer_close [of W1 U] by (simp add: fw_def split: option.splits)
    then have sl: "same_locks W1 W2" using fw2 by simp
    have sh2: "sole_holder (s1, W2)" using sh1 sl by (rule sole_holder_same_locks) simp
    have cl: "close C U (s, W) = (case r2 of Inl e \<Rightarrow> (Inl e, (s1, W2))
               | Inr _ \<Rightarrow> (Inr (), (s1, release_current s1 W2)))"
      using ir Inr fw2 by (simp add: close_def fw_def [symmetric] split: sum.splits)
    show ?thesis
    proof (cases r2)
      case (Inl e)
      with cl assms(2) sh2 show ?thesis by auto
    next
      case Inr2: (Inr u2)
      with cl assms(2) release_current_sole [OF sh2] show ?thesis by auto
    qed
  qed
qed

lemma abort_sole:
  assumes "sole_holder (s, W)" and "abort C U reason (s, W) = (r, (s', W'))"
  shows "sole_holder (s', W') \<and> (r = Inr () \<longrightarrow> (\<forall>i. \<not> locked W' i))"
proof -
  obtain r0 s1 W1 where ir: "iter_throw C reason (s, W) = (r0, (s1, W1))"
    by (cases "iter_throw C reason (s, W)") auto
  from iter_throw_frame [OF ir] have fr: "same_locks W W1" "writer s1 = writer s" by simp_all
  have sh1: "sole_holder (s1, W1)" using assms(1) fr by (rule sole_holder_same_locks)
  define fw where "fw = (if \<not> prevent_abort s1
               then (case writer s1 of
                       None \<Rightarrow> (Inr (), W1)
                     | Some w \<Rightarrow> writer_abort U w reason W1)
               else (Inr (), W1))"
  obtain r2 W2 where fw2: "fw = (r2, W2)" by (cases fw)
  have "same_locks W1 (snd fw)"
    using same_locks_writer_abort [of W1 U] by (simp add: fw_def split: option.splits)
  then have sl: "same_locks W1 W2" using fw2 by simp
  have sh2: "sole_holder (s1, W2)" using sh1 sl by (rule sole_holder_same_locks) simp
  have cl: "abort C U reason (s, W) = (case r2 of Inl e \<Rightarrow> (Inl e, (s1, W2))
             | Inr _ \<Rightarrow> (Inr (), (s1, release_current s1 W2)))"
    using ir fw2 by (simp add: abort_def fw_def [symmetric] split: sum.splits)
  show ?thesis
  proof (cases r2)
    case (Inl e)
    with cl assms(2) sh2 show ?thesis by auto
  next
    case (Inr u2)
    with cl assms(2) release_current_sole [OF sh2] show ?thesis by auto
  qed
qed

lemma start_sole:
  assumes "sole_holder (s, W)" and "start C (s, W) = (r, (s', W'))"
  shows "sole_holder (s', W')"
proof -
  let ?s0 = "s\<lparr>iter := Some (c_open C (gen s))\<rparr>"
  have sh0: "sole_holder (?s0, W)" using assms(1) by (rule sole_holder_same_locks) simp_all
  obtain rn sn Wn where n: "sink_next C Undefined (?s0, W) = (rn, (sn, Wn))"
    by (cases "sink_next C Undefined (?s0, W)") auto
  from sink_next_sole [OF sh0 n] have "sole_holder (sn, Wn)" by simp
  moreover from assms(2) n have "s' = sn" "W' = Wn" by (cases rn; simp add: start_def)+
  ultimately show ?thesis by simp
qed

lemma sink_write_sole:
  assumes "sole_holder (s, W)" and "sink_write C U x (s, W) = (r, (s', W'))"
  shows "sole_holder (s', W')"
proof (cases "writer s")
  case None
  with assms show ?thesis by (simp add: sink_write_def)
next
  case (Some w)
  obtain r1 W1 where sb: "submit U w x W = (r1, W1)" by (cases "submit U w x W")
  have "same_locks W W1" using same_locks_submit [of W U w x] sb by simp
  with assms(1) have sh1: "sole_holder (s, W1)" by (rule sole_holder_same_locks) simp
  show ?thesis
  proof (cases r1)
    case (Inr u)
    with assms(2) Some sb sh1 show ?thesis by (simp add: sink_write_def)
  next
    case (Inl err)
    obtain rn s2 W2 where n: "sink_next C err (s, W1) = (rn, (s2, W2))"
      by (cases "sink_next C err (s, W1)") auto
    from sink_next_sole [OF sh1 n] have sh2: "sole_holder (s2, W2)" by simp
    note sw = sink_write_retry [OF Some, of U x W err W1 C]
    show ?thesis
    proof (cases rn)
      case Inl2: (Inl e)
      with assms(2) sw sb Inl n sh2 show ?thesis by simp
    next
      case (Inr nw)
      obtain r3 W3 where sb3: "submit U nw x W2 = (r3, W3)" by (cases "submit U nw x W2")
      have "same_locks W2 W3" using same_locks_submit [of W2 U nw x] sb3 by simp
      with sh2 have "sole_holder (s2, W3)" by (rule sole_holder_same_locks) simp
      with assms(2) sw sb Inl n Inr sb3 show ?thesis by simp
    qed
  qed
qed

subsection \<open>The locks after every call\<close>

lemma replay_append: "replay (t1 @ t2) sk = replay t2 (replay t1 sk)"
  by (induction t1 arbitrary: sk) simp_all

lemma peak_ge_live: "live sk \<le> peak sk ts"
  by (cases ts) simp_all

lemma peak_append: "peak sk (t1 @ t2) = max (peak sk t1) (peak (replay t1 sk) t2)"
proof (induction t1 arbitrary: sk)
  case Nil
  show ?case using peak_ge_live [of sk t2] by simp
next
  case (Cons e t1)
  then show ?case by (simp add: max.assoc)
qed

lemma peak_ge_final: "live (replay ts sk) \<le> peak sk ts"
proof (induction ts arbitrary: sk)
  case Nil
  show ?case by simp
next
  case (Cons e ts)
  have "live (replay ts (lock_step e sk)) \<le> peak (lock_step e sk) ts" by (rule Cons.IH)
  then show ?case by simp
qed

lemma at_most_oneI:
  assumes "trace W' = trace W @ ts" and "skel W' = replay ts (skel W)" and "peak (skel W) ts \<le> 1"
  shows "at_most_one W W'"
proof -
  have "since W W' = ts" using assms(1) by (simp add: since_def)
  with assms show ?thesis by (simp add: at_most_one_def)
qed

lemma at_most_one_refl: "live (skel W) \<le> 1 \<Longrightarrow> at_most_one W W"
  by (rule at_most_oneI [where ts = "[]"]) simp_all

lemma at_most_one_trans:
  assumes "at_most_one W W1" and "at_most_one W1 W2"
  shows "at_most_one W W2"
proof (rule at_most_oneI [where ts = "since W W1 @ since W1 W2"])
  from assms show "trace W2 = trace W @ since W W1 @ since W1 W2"
    by (simp add: at_most_one_def)
  from assms show "skel W2 = replay (since W W1 @ since W1 W2) (skel W)"
    by (simp add: at_most_one_def replay_append)
  from assms have "peak (skel W) (since W W1) \<le> 1" and "peak (skel W1) (since W1 W2) \<le> 1"
    and "skel W1 = replay (since W W1) (skel W)"
    by (simp_all add: at_most_one_def)
  then show "peak (skel W) (since W W1 @ since W1 W2) \<le> 1"
    by (simp add: peak_append)
qed

lemma at_most_one_final:
  assumes "at_most_one W W'" shows "live (skel W') \<le> 1"
proof -
  from assms have "skel W' = replay (since W W') (skel W)" and "peak (skel W) (since W W') \<le> 1"
    by (simp_all add: at_most_one_def)
  with peak_ge_final [of "since W W'" "skel W"] show ?thesis by simp
qed

lemma at_most_one_single:
  assumes "trace W' = trace W @ [e]" and "skel W' = lock_step e (skel W)"
    and "live (skel W) \<le> 1" and "live (skel W') \<le> 1"
  shows "at_most_one W W'"
  using assms by (intro at_most_oneI [where ts = "[e]"]) simp_all

lemma skel_same_locks:
  assumes "same_locks W W'" shows "skel W' = skel W"
proof -
  from assms have w: "writers W' = writers W" and l: "length (streams W') = length (streams W)"
    and s: "\<And>i. i < length (streams W) \<Longrightarrow> s_writer (streams W' ! i) = s_writer (streams W ! i)"
    unfolding same_locks_def by blast+
  have "map s_writer (streams W') = map s_writer (streams W)"
    by (rule nth_equalityI) (simp_all add: l s)
  with w show ?thesis by (simp add: skel_def)
qed

lemma at_most_one_same:
  assumes "trace W' = trace W @ [e]" and "same_locks W W'" and "\<And>sk. lock_step e sk = sk"
    and "live (skel W) \<le> 1"
  shows "at_most_one W W'"
proof -
  have eq: "skel W' = skel W" using assms(2) by (rule skel_same_locks)
  show ?thesis
    using assms(1) _ assms(4)
  proof (rule at_most_one_single)
    show "skel W' = lock_step e (skel W)" by (simp only: eq assms(3))
    show "live (skel W') \<le> 1" using assms(4) by (simp only: eq)
  qed
qed

lemma at_most_one_log:
  assumes "live (skel W) \<le> 1" and "\<And>sk. lock_step e sk = sk"
  shows "at_most_one W (log e W)"
  using assms by (intro at_most_one_same [where e = e]) simp_all

lemma at_most_one_writer_ready:
  assumes "live (skel W) \<le> 1" shows "at_most_one W (snd (writer_ready w W))"
  using assms by (intro at_most_one_same [where e = "Ready w"])
     (simp_all add: same_locks_writer_ready)

lemma at_most_one_writer_write:
  assumes "live (skel W) \<le> 1" shows "at_most_one W (snd (writer_write U w x W))"
  using assms by (intro at_most_one_same [where e = "Write w x"])
     (simp_all add: same_locks_writer_write)

lemma at_most_one_writer_close:
  assumes "live (skel W) \<le> 1" shows "at_most_one W (snd (writer_close U w W))"
  using assms by (intro at_most_one_same [where e = "Close w"])
     (simp_all add: same_locks_writer_close)

lemma at_most_one_writer_abort:
  assumes "live (skel W) \<le> 1" shows "at_most_one W (snd (writer_abort U w r W))"
  using assms by (intro at_most_one_same [where e = "Abort w r"])
     (simp_all add: same_locks_writer_abort)

lemma live_no_live: "no_live W \<Longrightarrow> live (skel W) = 0"
  by (auto simp: live_def skel_def no_live_def filter_empty_conv in_set_conv_nth)

lemma live_sole:
  assumes "sole_holder (s, W)" shows "live (skel W) \<le> 1"
proof (cases "writer s")
  case None
  have "no_live W"
    unfolding no_live_def
  proof (intro allI impI)
    fix w assume "w < length (writers W)"
    then show "writers W ! w = None"
      using sole_holder_live [OF assms, of w] None by (cases "writers W ! w") auto
  qed
  then show ?thesis by (simp add: live_no_live)
next
  case (Some w0)
  have "{i. i < length (writers W) \<and> writers W ! i \<noteq> None} \<subseteq> {w0}"
    using sole_holder_live [OF assms] Some by auto
  then have "card {i. i < length (writers W) \<and> writers W ! i \<noteq> None} \<le> card {w0}"
    by (intro card_mono) simp_all
  then show ?thesis by (simp add: live_def skel_def length_filter_conv_card)
qed

lemma skel_writer_release:
  fixes W :: "('a, 'u) world"
  shows "skel (writer_release w W) = lock_step (ReleaseLock w :: 'a event) (skel W)"
  by (simp add: writer_release_def attached_def skel_def Let_def map_update split: option.splits)

lemma skel_getWriter:
  fixes W :: "('a, 'u) world"
  shows "skel (snd (getWriter v W)) = lock_step (GetWriter v :: 'a event) (skel W)"
  by (simp add: getWriter_def Let_def skel_def map_update split: option.splits)

lemma live_getWriter: "live (lock_step (GetWriter v) sk) \<le> live sk + 1"
  by (cases sk) (simp add: live_def)

lemma at_most_one_release_current:
  assumes "sole_holder (s, W)"
  shows "at_most_one W (release_current s W)"
proof (cases "writer s")
  case None
  then show ?thesis using live_sole [OF assms] by (simp add: release_current_def at_most_one_refl)
next
  case (Some w)
  from release_current_no_live [OF assms] have "no_live (release_current s W)" by simp
  then have l1: "live (skel (writer_release w W)) \<le> 1"
    using Some live_no_live [of "release_current s W"] by (simp add: release_current_def)
  have "at_most_one W (writer_release w W)"
    using _ skel_writer_release live_sole [OF assms] l1
    by (rule at_most_one_single) simp
  with Some show ?thesis by (simp add: release_current_def)
qed

lemma at_most_one_getWriter:
  fixes W :: "('a, 'u) world"
  assumes "no_live W"
  shows "at_most_one W (snd (getWriter v W))"
proof -
  have l0: "live (skel W) = 0" using assms by (rule live_no_live)
  have "live (lock_step (GetWriter v :: 'a event) (skel W)) \<le> live (skel W) + 1"
    by (rule live_getWriter)
  then have "live (skel (snd (getWriter v W))) \<le> live (skel W) + 1"
    using skel_getWriter [of v W] by simp
  with l0 have l1: "live (skel (snd (getWriter v W))) \<le> 1" by simp
  from l0 have l0': "live (skel W) \<le> 1" by simp
  show ?thesis
    using _ skel_getWriter l0' l1 by (rule at_most_one_single) simp
qed

lemma sink_next_at_most_one:
  assumes "sole_holder (s, W)"
  shows "at_most_one W (snd (snd (sink_next C r (s, W))))"
proof (cases "iter s")
  case None
  then show ?thesis using live_sole [OF assms] by (simp add: sink_next_def at_most_one_refl)
next
  case (Some c)
  obtain cr c' where n: "c_next C r c = (cr, c')" by (cases "c_next C r c")
  let ?W0 = "log (CursorNext r) W"
  have a0: "at_most_one W ?W0" using live_sole [OF assms] by (rule at_most_one_log) simp
  show ?thesis
  proof (cases cr)
    case (Inl e)
    with Some n a0 show ?thesis by (simp add: sink_next_def)
  next
    case (Inr ir)
    show ?thesis
    proof (cases ir)
      case IterDone
      with Some n Inr a0 show ?thesis by (simp add: sink_next_def)
    next
      case (IterYield v)
      let ?W1 = "release_current s ?W0"
      have sh0: "sole_holder (s, ?W0)" using assms by (rule sole_holder_same_locks) simp_all
      then have a1: "at_most_one ?W0 ?W1" by (rule at_most_one_release_current)
      from release_current_no_live [OF sh0] have "no_live ?W1" by simp
      then have a2: "at_most_one ?W1 (snd (getWriter v ?W1))" by (rule at_most_one_getWriter)
      have "snd (snd (sink_next C r (s, W))) = snd (getWriter v ?W1)"
        using Some n Inr IterYield
        by (cases "getWriter v ?W1") (simp add: sink_next_def Let_def split: sum.splits)
      with at_most_one_trans [OF a0 at_most_one_trans [OF a1 a2]] show ?thesis by simp
    qed
  qed
qed

lemma submit_at_most_one:
  assumes "live (skel W) \<le> 1"
  shows "at_most_one W (snd (submit U w x W))"
proof (cases "writer_ready w W")
  case (Pair r W1)
  have a1: "at_most_one W W1" using at_most_one_writer_ready [OF assms, of w] Pair by simp
  show ?thesis
  proof (cases r)
    case (Inl e)
    with Pair a1 show ?thesis by (simp add: submit_def)
  next
    case (Inr u)
    have "at_most_one W1 (snd (writer_write U w x W1))"
      using at_most_one_final [OF a1] by (rule at_most_one_writer_write)
    with a1 have "at_most_one W (snd (writer_write U w x W1))" by (rule at_most_one_trans)
    with Pair Inr show ?thesis by (simp add: submit_def)
  qed
qed

lemma sink_write_at_most_one:
  assumes "sole_holder (s, W)"
  shows "at_most_one W (snd (snd (sink_write C U x (s, W))))"
proof (cases "writer s")
  case None
  then show ?thesis using live_sole [OF assms] by (simp add: sink_write_def at_most_one_refl)
next
  case (Some w)
  obtain r1 W1 where sb: "submit U w x W = (r1, W1)" by (cases "submit U w x W")
  have a1: "at_most_one W W1" using submit_at_most_one [OF live_sole [OF assms], of U w x] sb by simp
  have "same_locks W W1" using same_locks_submit [of W U w x] sb by simp
  with assms have sh1: "sole_holder (s, W1)" by (rule sole_holder_same_locks) simp
  show ?thesis
  proof (cases r1)
    case (Inr u)
    with Some sb a1 show ?thesis by (simp add: sink_write_def)
  next
    case (Inl err)
    obtain rn s2 W2 where n: "sink_next C err (s, W1) = (rn, (s2, W2))"
      by (cases "sink_next C err (s, W1)") auto
    have a2: "at_most_one W1 W2" using sink_next_at_most_one [OF sh1, of C err] n by simp
    from sink_next_sole [OF sh1 n] have sh2: "sole_holder (s2, W2)" by simp
    note sw = sink_write_retry [OF Some, of U x W err W1 C]
    show ?thesis
    proof (cases rn)
      case Inl2: (Inl e)
      with sw sb Inl n at_most_one_trans [OF a1 a2] show ?thesis by simp
    next
      case (Inr nw)
      obtain r3 W3 where sb3: "submit U nw x W2 = (r3, W3)" by (cases "submit U nw x W2")
      have a3: "at_most_one W2 W3"
        using submit_at_most_one [OF live_sole [OF sh2], of U nw x] sb3 by simp
      from sw sb Inl n Inr sb3 at_most_one_trans [OF a1 at_most_one_trans [OF a2 a3]]
      show ?thesis by simp
    qed
  qed
qed

lemma start_at_most_one:
  assumes "sole_holder (s, W)"
  shows "at_most_one W (snd (snd (start C (s, W))))"
proof -
  let ?s0 = "s\<lparr>iter := Some (c_open C (gen s))\<rparr>"
  have sh0: "sole_holder (?s0, W)" using assms by (rule sole_holder_same_locks) simp_all
  obtain rn sn Wn where n: "sink_next C Undefined (?s0, W) = (rn, (sn, Wn))"
    by (cases "sink_next C Undefined (?s0, W)") auto
  have "snd (snd (start C (s, W))) = Wn" using n by (cases rn) (simp_all add: start_def)
  with sink_next_at_most_one [OF sh0, of C Undefined] n show ?thesis by simp
qed

lemma iter_return_at_most_one:
  assumes "live (skel W) \<le> 1"
  shows "at_most_one W (snd (snd (iter_return C (s, W))))"
proof -
  have "at_most_one W (log CursorReturn W)" using assms by (rule at_most_one_log) simp
  then show ?thesis
    using at_most_one_refl [OF assms]
    by (simp add: iter_return_def split: option.splits prod.splits)
qed

lemma iter_throw_at_most_one:
  assumes "live (skel W) \<le> 1"
  shows "at_most_one W (snd (snd (iter_throw C reason (s, W))))"
proof -
  have "at_most_one W (log (CursorThrow reason) W)" using assms by (rule at_most_one_log) simp
  then show ?thesis
    using at_most_one_refl [OF assms]
    by (simp add: iter_throw_def split: option.splits prod.splits)
qed

lemma close_at_most_one:
  assumes "sole_holder (s, W)"
  shows "at_most_one W (snd (snd (close C U (s, W))))"
proof -
  obtain r0 s1 W1 where ir: "iter_return C (s, W) = (r0, (s1, W1))"
    by (cases "iter_return C (s, W)") auto
  have a1: "at_most_one W W1"
    using iter_return_at_most_one [OF live_sole [OF assms], of C s] ir by simp
  from iter_return_frame [OF ir] have fr: "same_locks W W1" "writer s1 = writer s" by simp_all
  have sh1: "sole_holder (s1, W1)" using assms fr by (rule sole_holder_same_locks)
  show ?thesis
  proof (cases r0)
    case (Inl e)
    with ir a1 show ?thesis by (simp add: close_def)
  next
    case (Inr u)
    define fw where "fw = (if \<not> prevent_close s1
                 then (case writer s1 of
                         None \<Rightarrow> (Inr (), W1)
                       | Some w \<Rightarrow> writer_close U w W1)
                 else (Inr (), W1))"
    obtain r2 W2 where fw2: "fw = (r2, W2)" by (cases fw)
    have "at_most_one W1 (snd fw)"
      using at_most_one_writer_close [OF live_sole [OF sh1], of U]
        at_most_one_refl [OF live_sole [OF sh1]]
      by (simp add: fw_def split: option.splits)
    then have a2: "at_most_one W1 W2" using fw2 by simp
    have "same_locks W1 (snd fw)"
      using same_locks_writer_close [of W1 U] by (simp add: fw_def split: option.splits)
    then have sl: "same_locks W1 W2" using fw2 by simp
    have sh2: "sole_holder (s1, W2)" using sh1 sl by (rule sole_holder_same_locks) simp
    have cl: "close C U (s, W) = (case r2 of Inl e \<Rightarrow> (Inl e, (s1, W2))
               | Inr _ \<Rightarrow> (Inr (), (s1, release_current s1 W2)))"
      using ir Inr fw2 by (simp add: close_def fw_def [symmetric] split: sum.splits)
    show ?thesis
    proof (cases r2)
      case (Inl e)
      with cl at_most_one_trans [OF a1 a2] show ?thesis by simp
    next
      case Inr2: (Inr u2)
      have a3: "at_most_one W2 (release_current s1 W2)"
        using sh2 by (rule at_most_one_release_current)
      from cl Inr2 at_most_one_trans [OF a1 at_most_one_trans [OF a2 a3]] show ?thesis by simp
    qed
  qed
qed

lemma abort_at_most_one:
  assumes "sole_holder (s, W)"
  shows "at_most_one W (snd (snd (abort C U reason (s, W))))"
proof -
  obtain r0 s1 W1 where ir: "iter_throw C reason (s, W) = (r0, (s1, W1))"
    by (cases "iter_throw C reason (s, W)") auto
  have a1: "at_most_one W W1"
    using iter_throw_at_most_one [OF live_sole [OF assms], of C reason s] ir by simp
  from iter_throw_frame [OF ir] have fr: "same_locks W W1" "writer s1 = writer s" by simp_all
  have sh1: "sole_holder (s1, W1)" using assms fr by (rule sole_holder_same_locks)
  define fw where "fw = (if \<not> prevent_abort s1
               then (case writer s1 of
                       None \<Rightarrow> (Inr (), W1)
                     | Some w \<Rightarrow> writer_abort U w reason W1)
               else (Inr (), W1))"
  obtain r2 W2 where fw2: "fw = (r2, W2)" by (cases fw)
  have "at_most_one W1 (snd fw)"
    using at_most_one_writer_abort [OF live_sole [OF sh1], of U _ reason]
      at_most_one_refl [OF live_sole [OF sh1]]
    by (simp add: fw_def split: option.splits)
  then have a2: "at_most_one W1 W2" using fw2 by simp
  have "same_locks W1 (snd fw)"
    using same_locks_writer_abort [of W1 U] by (simp add: fw_def split: option.splits)
  then have sl: "same_locks W1 W2" using fw2 by simp
  have sh2: "sole_holder (s1, W2)" using sh1 sl by (rule sole_holder_same_locks) simp
  have cl: "abort C U reason (s, W) = (case r2 of Inl e \<Rightarrow> (Inl e, (s1, W2))
             | Inr _ \<Rightarrow> (Inr (), (s1, release_current s1 W2)))"
    using ir fw2 by (simp add: abort_def fw_def [symmetric] split: sum.splits)
  show ?thesis
  proof (cases r2)
    case (Inl e)
    with cl at_most_one_trans [OF a1 a2] show ?thesis by simp
  next
    case (Inr u2)
    have a3: "at_most_one W2 (release_current s1 W2)"
      using sh2 by (rule at_most_one_release_current)
    from cl Inr at_most_one_trans [OF a1 at_most_one_trans [OF a2 a3]] show ?thesis by simp
  qed
qed

lemma sink_next_release_first:
  assumes "writer s = Some w"
  shows "GetWriter v \<in> set (since W (snd (snd (sink_next C r (s, W))))) \<longrightarrow>
           since W (snd (snd (sink_next C r (s, W)))) = [CursorNext r, ReleaseLock w, GetWriter v]"
proof (cases "iter s")
  case None
  then show ?thesis by (simp add: sink_next_def)
next
  case (Some c)
  obtain cr c' where n: "c_next C r c = (cr, c')" by (cases "c_next C r c")
  show ?thesis
  proof (cases cr)
    case (Inl e)
    with Some n show ?thesis by (simp add: sink_next_def since_def)
  next
    case (Inr ir)
    show ?thesis
    proof (cases ir)
      case IterDone
      with Some n Inr show ?thesis by (simp add: sink_next_def since_def)
    next
      case (IterYield u)
      let ?W1 = "writer_release w (log (CursorNext r) W)"
      have "snd (snd (sink_next C r (s, W))) = snd (getWriter u ?W1)"
        using Some n Inr IterYield assms
        by (cases "getWriter u ?W1")
           (simp add: sink_next_def Let_def release_current_def split: sum.splits)
      moreover have "trace (snd (getWriter u ?W1)) = trace W @ [CursorNext r, ReleaseLock w, GetWriter u]"
        by simp
      ultimately show ?thesis by (auto simp: since_def)
    qed
  qed
qed

text \<open>
  Claim C4, amended to the exits that return normally. The sink holds at most one
  attached writer at any time: \<open>sole_holder\<close> is preserved by every method, however it
  exits, and during every method the locks change only by the recorded calls, with never
  more than one writer attached before, between or after them (\<open>at_most_one\<close>). An
  advance of a sink that holds a writer calls \<open>getWriter\<close> only after it has called
  \<open>releaseLock\<close> on that writer. A successful advance has detached the previous writer
  and only the newly yielded stream is locked; after \<open>close\<close> or \<open>abort\<close> has returned
  normally no stream is locked.
\<close>

theorem handle_discipline:
  assumes "sole_holder (s, W)"
  shows "sole_holder (snd (start C (s, W)))
       \<and> sole_holder (snd (sink_write C U x (s, W)))
       \<and> sole_holder (snd (sink_next C r (s, W)))
       \<and> sole_holder (snd (close C U (s, W)))
       \<and> sole_holder (snd (abort C U r (s, W)))
       \<and> at_most_one W (snd (snd (start C (s, W))))
       \<and> at_most_one W (snd (snd (sink_write C U x (s, W))))
       \<and> at_most_one W (snd (snd (sink_next C r (s, W))))
       \<and> at_most_one W (snd (snd (close C U (s, W))))
       \<and> at_most_one W (snd (snd (abort C U r (s, W))))
       \<and> (\<forall>w v. writer s = Some w
                \<and> GetWriter v \<in> set (since W (snd (snd (sink_next C r (s, W))))) \<longrightarrow>
             since W (snd (snd (sink_next C r (s, W)))) =
               [CursorNext r, ReleaseLock w, GetWriter v])
       \<and> (\<forall>nw s' W'. sink_next C r (s, W) = (Inr nw, (s', W')) \<longrightarrow>
             (\<forall>w. writer s = Some w \<longrightarrow> attached W' w = None)
             \<and> (\<forall>i. locked W' i \<longrightarrow> attached W' nw = Some i))
       \<and> (\<forall>s' W'. close C U (s, W) = (Inr (), (s', W')) \<longrightarrow> (\<forall>i. \<not> locked W' i))
       \<and> (\<forall>s' W'. abort C U r (s, W) = (Inr (), (s', W')) \<longrightarrow> (\<forall>i. \<not> locked W' i))"
proof (intro conjI allI impI)
  show "sole_holder (snd (start C (s, W)))"
    using start_sole [OF assms, of C] by (cases "start C (s, W)") auto
  show "sole_holder (snd (sink_write C U x (s, W)))"
    using sink_write_sole [OF assms, of C U x] by (cases "sink_write C U x (s, W)") auto
  show "sole_holder (snd (sink_next C r (s, W)))"
    using sink_next_sole [OF assms, of C r] by (cases "sink_next C r (s, W)") auto
  show "sole_holder (snd (close C U (s, W)))"
    using close_sole [OF assms, of C U] by (cases "close C U (s, W)") auto
  show "sole_holder (snd (abort C U r (s, W)))"
    using abort_sole [OF assms, of C U r] by (cases "abort C U r (s, W)") auto
  show "at_most_one W (snd (snd (start C (s, W))))"
    using assms by (rule start_at_most_one)
  show "at_most_one W (snd (snd (sink_write C U x (s, W))))"
    using assms by (rule sink_write_at_most_one)
  show "at_most_one W (snd (snd (sink_next C r (s, W))))"
    using assms by (rule sink_next_at_most_one)
  show "at_most_one W (snd (snd (close C U (s, W))))"
    using assms by (rule close_at_most_one)
  show "at_most_one W (snd (snd (abort C U r (s, W))))"
    using assms by (rule abort_at_most_one)
next
  fix w v
  assume "writer s = Some w \<and> GetWriter v \<in> set (since W (snd (snd (sink_next C r (s, W)))))"
  then show "since W (snd (snd (sink_next C r (s, W)))) = [CursorNext r, ReleaseLock w, GetWriter v]"
    using sink_next_release_first [of s w v W C r] by blast
next
  fix nw s' W' w assume "sink_next C r (s, W) = (Inr nw, (s', W'))" "writer s = Some w"
  then show "attached W' w = None" using sink_next_sole [OF assms] by blast
next
  fix nw s' W' i assume "sink_next C r (s, W) = (Inr nw, (s', W'))" "locked W' i"
  then show "attached W' nw = Some i" using sink_next_sole [OF assms] by blast
next
  fix s' W' i assume "close C U (s, W) = (Inr (), (s', W'))"
  then show "\<not> locked W' i" using close_sole [OF assms] by blast
next
  fix s' W' i assume "abort C U r (s, W) = (Inr (), (s', W'))"
  then show "\<not> locked W' i" using abort_sole [OF assms] by blast
qed

section \<open>Termination called twice\<close>

lemma attached_release_current:
  "writer s = Some w \<Longrightarrow> attached (release_current s W) w = None"
  by (simp add: release_current_def)

lemma close_Inr:
  assumes "close C U (s, W) = (Inr (), (s1, W1))"
  shows "writer s1 = writer s \<and> options s1 = options s
       \<and> (\<forall>w. writer s = Some w \<longrightarrow> attached W1 w = None)"
proof -
  obtain r0 s0 W0 where ir: "iter_return C (s, W) = (r0, (s0, W0))"
    by (cases "iter_return C (s, W)") auto
  from iter_return_frame [OF ir] have fr: "writer s0 = writer s" "options s0 = options s"
    by simp_all
  from assms ir obtain W2 where "s1 = s0" "W1 = release_current s0 W2"
    by (auto simp: close_def split: sum.splits prod.splits if_splits option.splits)
  with fr show ?thesis by (simp add: attached_release_current)
qed

lemma abort_Inr:
  assumes "abort C U reason (s, W) = (Inr (), (s1, W1))"
  shows "writer s1 = writer s \<and> options s1 = options s
       \<and> (\<forall>w. writer s = Some w \<longrightarrow> attached W1 w = None)"
proof -
  obtain r0 s0 W0 where ir: "iter_throw C reason (s, W) = (r0, (s0, W0))"
    by (cases "iter_throw C reason (s, W)") auto
  from iter_throw_frame [OF ir] have fr: "writer s0 = writer s" "options s0 = options s"
    by simp_all
  from assms ir obtain W2 where "s1 = s0" "W1 = release_current s0 W2"
    by (auto simp: abort_def split: sum.splits prod.splits if_splits option.splits)
  with fr show ?thesis by (simp add: attached_release_current)
qed

lemma writer_close_released: "attached W w = None \<Longrightarrow> fst (writer_close U w W) = Inl released_error"
  by (simp add: writer_close_def Let_def)

lemma writer_abort_released:
  "attached W w = None \<Longrightarrow> fst (writer_abort U w reason W) = Inl released_error"
  by (simp add: writer_abort_def Let_def)

lemma close_on_released:
  assumes "writer s = Some w" and "attached W w = None" and "fst (iter_return C (s, W)) = Inr ()"
  shows "fst (close C U (s, W)) = (if prevent_close s then Inr () else Inl released_error)"
proof -
  obtain s0 W0 where ir: "iter_return C (s, W) = (Inr (), (s0, W0))"
    using assms(3) by (cases "iter_return C (s, W)") auto
  from iter_return_frame [OF ir] have fr: "writer s0 = Some w" "options s0 = options s"
    "attached W0 w = None" using assms(1,2) by simp_all
  have pc: "prevent_close s0 = prevent_close s" using fr(2) by (simp add: prevent_close_def)
  show ?thesis
  proof (cases "prevent_close s")
    case True
    with ir pc show ?thesis by (simp add: close_def)
  next
    case False
    obtain r2 W2 where c: "writer_close U w W0 = (r2, W2)" by (cases "writer_close U w W0")
    with writer_close_released [OF fr(3), of U] have "r2 = Inl released_error" by simp
    with False ir pc fr(1) c show ?thesis by (simp add: close_def)
  qed
qed

lemma abort_on_released:
  assumes "writer s = Some w" and "attached W w = None"
  shows "fst (abort C U reason (s, W)) = (if prevent_abort s then Inr () else Inl released_error)"
proof -
  obtain r0 s0 W0 where ir: "iter_throw C reason (s, W) = (r0, (s0, W0))"
    by (cases "iter_throw C reason (s, W)") auto
  from iter_throw_frame [OF ir] have fr: "writer s0 = Some w" "options s0 = options s"
    "attached W0 w = None" using assms(1,2) by simp_all
  have pc: "prevent_abort s0 = prevent_abort s" using fr(2) by (simp add: prevent_abort_def)
  show ?thesis
  proof (cases "prevent_abort s")
    case True
    with ir pc show ?thesis by (simp add: abort_def)
  next
    case False
    obtain r2 W2 where c: "writer_abort U w reason W0 = (r2, W2)"
      by (cases "writer_abort U w reason W0")
    with writer_abort_released [OF fr(3), of U reason] have "r2 = Inl released_error" by simp
    with False ir pc fr(1) c show ?thesis by (simp add: abort_def)
  qed
qed

text \<open>
  Claim C9, amended. After a \<open>close\<close> that returned normally, a second \<open>close\<close>
  whose \<open>return\<close> signal does not throw returns normally when \<open>preventClose\<close> is set
  and otherwise rejects with the TypeError of the released writer; likewise a second
  \<open>abort\<close> returns normally when \<open>preventAbort\<close> is set and otherwise rejects with
  that TypeError.
\<close>

theorem repeated_termination:
  "(close C U (s, W) = (Inr (), cfg1) \<and> writer s = Some w \<and> fst (iter_return C cfg1) = Inr () \<longrightarrow>
      fst (close C U cfg1) = (if prevent_close s then Inr () else Inl released_error))
   \<and> (abort C U reason (s, W) = (Inr (), cfg2) \<and> writer s = Some w \<longrightarrow>
      fst (abort C U reason' cfg2) = (if prevent_abort s then Inr () else Inl released_error))"
proof (intro conjI impI)
  assume h: "close C U (s, W) = (Inr (), cfg1) \<and> writer s = Some w \<and> fst (iter_return C cfg1) = Inr ()"
  obtain s1 W1 where cfg1: "cfg1 = (s1, W1)" by (cases cfg1)
  from close_Inr [of C U s W s1 W1] h cfg1
  have "writer s1 = Some w" "options s1 = options s" "attached W1 w = None" by simp_all
  moreover then have "prevent_close s1 = prevent_close s" by (simp add: prevent_close_def)
  ultimately show "fst (close C U cfg1) = (if prevent_close s then Inr () else Inl released_error)"
    using close_on_released [of s1 w W1 C U] h cfg1 by simp
next
  assume h: "abort C U reason (s, W) = (Inr (), cfg2) \<and> writer s = Some w"
  obtain s1 W1 where cfg2: "cfg2 = (s1, W1)" by (cases cfg2)
  from abort_Inr [of C U reason s W s1 W1] h cfg2
  have "writer s1 = Some w" "options s1 = options s" "attached W1 w = None" by simp_all
  moreover then have "prevent_abort s1 = prevent_abort s" by (simp add: prevent_abort_def)
  ultimately show "fst (abort C U reason' cfg2) = (if prevent_abort s then Inr () else Inl released_error)"
    using abort_on_released [of s1 w W1 C U reason'] cfg2 by simp
qed

section \<open>Limited streams\<close>

lemma inner_submit:
  assumes "inner_open d Wi"
  shows "\<exists>Wi'. submit inmemory_ops 0 x Wi = (Inr (), Wi') \<and> inner_open (d @ [x]) Wi'"
  using assms
  by (simp add: inner_open_def submit_def writer_ready_def writer_write_def Let_def attached_def
      inmemory_ops_def)

lemma inner_close_release:
  assumes "inner_open d Wi"
  shows "inner_shut d (writer_release 0 (snd (writer_close inmemory_ops 0 Wi)))"
  using assms
  by (simp add: inner_open_def inner_shut_def writer_close_def writer_release_def Let_def
      attached_def inmemory_ops_def)

lemma inner_close_ok:
  assumes "inner_open d Wi"
  shows "fst (writer_close inmemory_ops 0 Wi) = Inr ()"
  using assms
  by (simp add: inner_open_def writer_close_def Let_def attached_def inmemory_ops_def)

lemma limited_write_fits:
  assumes "lim_ok K d True u" and "length d < K"
  shows "\<exists>u'. limited_write x u = (Inr (), u') \<and> lim_ok K (d @ [x]) True u'"
proof -
  from assms(1) have io: "inner_open d (l_inner u)" by (simp add: lim_ok_def)
  let ?u1 = "u\<lparr>l_read := l_read u + 1\<rparr>"
  from inner_submit [OF io, of x] obtain Wi' where
    sb: "submit inmemory_ops 0 x (l_inner u) = (Inr (), Wi')" and o': "inner_open (d @ [x]) Wi'"
    by blast
  have "limited_write x u = (Inr (), ?u1\<lparr>l_inner := Wi'\<rparr>)"
    using assms sb by (simp add: limited_write_def lim_ok_def Let_def)
  moreover have "lim_ok K (d @ [x]) True (?u1\<lparr>l_inner := Wi'\<rparr>)"
    using assms(1) o' by (simp add: lim_ok_def)
  ultimately show ?thesis by blast
qed

lemma limited_write_full:
  assumes "lim_ok K d True u" and "length d = K"
  shows "\<exists>u'. limited_write x u = (Inl (exceeded_error K), u') \<and> lim_ok K d False u'"
proof -
  from assms(1) have io: "inner_open d (l_inner u)" by (simp add: lim_ok_def)
  let ?Wi = "writer_release 0 (snd (writer_close inmemory_ops 0 (l_inner u)))"
  have "limited_write x u = (Inl (exceeded_error K), u\<lparr>l_inner := ?Wi\<rparr>)"
    using assms
    by (simp add: limited_write_def lim_ok_def Let_def limited_release_def
        options_preventClose_def)
  moreover have "lim_ok K d False (u\<lparr>l_inner := ?Wi\<rparr>)"
    using assms(1) inner_close_release [OF io] by (simp add: lim_ok_def)
  ultimately show ?thesis by blast
qed

lemma limited_close_open:
  assumes "lim_ok K d True u"
  shows "\<exists>u'. limited_close u = (Inr (), u') \<and> lim_ok K d False u'"
proof -
  from assms(1) have io: "inner_open d (l_inner u)" by (simp add: lim_ok_def)
  obtain r Wi where c: "writer_close inmemory_ops 0 (l_inner u) = (r, Wi)"
    by (cases "writer_close inmemory_ops 0 (l_inner u)")
  with inner_close_ok [OF io] have r: "r = Inr ()" by simp
  have "limited_close u = (Inr (), u\<lparr>l_inner := writer_release 0 Wi\<rparr>)"
    using assms c r
    by (simp add: limited_close_def lim_ok_def limited_release_def options_preventClose_def)
  moreover have "lim_ok K d False (u\<lparr>l_inner := writer_release 0 Wi\<rparr>)"
    using assms(1) inner_close_release [OF io] c by (simp add: lim_ok_def)
  ultimately show ?thesis by blast
qed

lemma new_limited_consumer: "consumer K [] Writable None True (new_limited K)"
  by (simp add: consumer_def new_limited_def lim_ok_def limited_start_def getWriter_def Let_def
      new_inmemory_def inner_open_def log_def)

section \<open>Routing chunks to limited streams\<close>

lemma slice_length: "length (slice K j p) = min K (length p - j * K)"
  by (simp add: slice_def)

lemma slice_snoc_before:
  assumes "(j + 1) * K \<le> length p" shows "slice K j (p @ [x]) = slice K j p"
  using assms by (simp add: slice_def)

lemma slice_snoc_at:
  assumes "j * K \<le> length p" and "length p < (j + 1) * K"
  shows "slice K j (p @ [x]) = slice K j p @ [x]"
  using assms by (simp add: slice_def)

lemma slice_after:
  assumes "length p \<le> j * K" shows "slice K j p = []"
  using assms by (simp add: slice_def)

lemma mult_le_lt: "(j::nat) < i \<Longrightarrow> (j + 1) * K \<le> i * K"
  using mult_le_mono1 [of "Suc j" i K] by simp

lemma mult_lt_le: "(i::nat) < j \<Longrightarrow> (i + 1) * K \<le> j * K"
  by (rule mult_le_lt)

lemma routed_attached:
  assumes "routed K N i p (s, W)"
  shows "attached W i = Some i"
  using assms by (simp add: routed_def attached_def nth_append)

lemma routed_consumer:
  assumes "routed K N i p (s, W)" and "j < N"
  shows "consumer K (slice K j p) (if j < i then Errored (exceeded_error K) else Writable)
           (if j = i then Some i else None) (i \<le> j) (streams W ! j)"
  using assms unfolding routed_def by blast

lemma submit_accepted:
  assumes "attached W w = Some i" and "s_state (streams W ! i) = Writable"
    and "u_write U x (s_sink (streams W ! i)) = (Inr (), u)"
  shows "\<exists>W'. submit U w x W = (Inr (), W')
     \<and> streams W' = (streams W)[i := (streams W ! i)\<lparr>s_sink := u\<rparr>]
     \<and> writers W' = writers W \<and> trace W' = trace W @ [Ready w, Write w x]"
proof -
  have rd: "writer_ready w W = (Inr (), log (Ready w) W)"
    using assms(1,2) by (simp add: writer_ready_def Let_def)
  with assms show ?thesis by (simp add: submit_def writer_write_def Let_def)
qed

lemma submit_rejected:
  assumes "attached W w = Some i" and "s_state (streams W ! i) = Writable"
    and "u_write U x (s_sink (streams W ! i)) = (Inl e, u)"
  shows "\<exists>W'. submit U w x W = (Inl e, W')
     \<and> streams W' = (streams W)[i := (streams W ! i)\<lparr>s_sink := u, s_state := Errored e\<rparr>]
     \<and> writers W' = writers W \<and> trace W' = trace W @ [Ready w, Write w x]"
proof -
  have rd: "writer_ready w W = (Inr (), log (Ready w) W)"
    using assms(1,2) by (simp add: writer_ready_def Let_def)
  with assms show ?thesis by (simp add: submit_def writer_write_def Let_def)
qed

lemma routed_fit:
  assumes "routed K N i p (s, W)" and "length p < (i + 1) * K"
  shows "\<exists>W'. sink_write C limited_ops x (s, W) = (Inr (), (s, W')) \<and> routed K N i (p @ [x]) (s, W')"
proof -
  from assms(1) have iN: "i < N" and lo: "i * K \<le> length p" and ws: "writer s = Some i"
    and wr: "writers W = replicate i None @ [Some i]" and len: "length (streams W) = N"
    by (simp_all add: routed_def)
  have at: "attached W i = Some i" using assms(1) by (rule routed_attached)
  from routed_consumer [OF assms(1) iN]
  have ci: "consumer K (slice K i p) Writable (Some i) True (streams W ! i)" by simp
  then have st: "s_state (streams W ! i) = Writable" and lk: "s_writer (streams W ! i) = Some i"
    and ok: "lim_ok K (slice K i p) True (s_sink (streams W ! i))"
    by (simp_all add: consumer_def)
  have sl: "length (slice K i p) < K" using lo assms(2) by (simp add: slice_length)
  from limited_write_fits [OF ok sl, of x] obtain u' where
    lw: "limited_write x (s_sink (streams W ! i)) = (Inr (), u')"
    and ok': "lim_ok K (slice K i p @ [x]) True u'" by blast
  have uw: "u_write limited_ops x (s_sink (streams W ! i)) = (Inr (), u')"
    using lw by (simp add: limited_ops_def)
  from submit_accepted [OF at st uw] obtain W' where
    sb: "submit limited_ops i x W = (Inr (), W')"
    and sW': "streams W' = (streams W)[i := (streams W ! i)\<lparr>s_sink := u'\<rparr>]"
    and wW': "writers W' = writers W" by auto
  have sw: "sink_write C limited_ops x (s, W) = (Inr (), (s, W'))"
    using ws sb by (simp add: sink_write_def)
  have "\<forall>j < N. consumer K (slice K j (p @ [x]))
                   (if j < i then Errored (exceeded_error K) else Writable)
                   (if j = i then Some i else None) (i \<le> j) (streams W' ! j)"
  proof (intro allI impI)
    fix j assume jN: "j < N"
    note cj = routed_consumer [OF assms(1) jN]
    consider "j < i" | "j = i" | "i < j" by linarith
    then show "consumer K (slice K j (p @ [x]))
                   (if j < i then Errored (exceeded_error K) else Writable)
                   (if j = i then Some i else None) (i \<le> j) (streams W' ! j)"
    proof cases
      case 1
      then have "(j + 1) * K \<le> length p" using mult_le_lt [OF 1, of K] lo by linarith
      then have "slice K j (p @ [x]) = slice K j p" by (rule slice_snoc_before)
      with cj 1 jN len show ?thesis by (simp add: sW')
    next
      case 2
      have "slice K i (p @ [x]) = slice K i p @ [x]" using lo assms(2) by (rule slice_snoc_at)
      with 2 ok' lk st iN len show ?thesis by (simp add: sW' consumer_def)
    next
      case 3
      then have b: "length (p @ [x]) \<le> j * K" using mult_lt_le [OF 3, of K] assms(2) by simp
      then have "length p \<le> j * K" by simp
      then have "slice K j p = []" by (rule slice_after)
      moreover have "slice K j (p @ [x]) = []" using b by (rule slice_after)
      ultimately show ?thesis using cj 3 jN len by (simp add: sW')
    qed
  qed
  then have "routed K N i (p @ [x]) (s, W')"
    using assms iN lo ws wr len by (simp add: routed_def sW' wW')
  with sw show ?thesis by blast
qed

lemma sink_next_yield:
  assumes "iter s = Some c" and "writer s = Some w" and "attached W w = Some i"
    and "c_next C r c = (Inr (IterYield v), c')" and "v < length (streams W)" and "v \<noteq> i"
    and "s_writer (streams W ! v) = None"
  shows "\<exists>W'. sink_next C r (s, W) =
             (Inr (length (writers W)),
              (s\<lparr>iter := Some c', writer := Some (length (writers W))\<rparr>, W'))
     \<and> streams W' = (streams W)[i := (streams W ! i)\<lparr>s_writer := None\<rparr>,
                                 v := (streams W ! v)\<lparr>s_writer := Some (length (writers W))\<rparr>]
     \<and> writers W' = (writers W)[w := None] @ [Some v]
     \<and> trace W' = trace W @ [CursorNext r, ReleaseLock w, GetWriter v]"
proof -
  have ib: "i < length (streams W)" using assms(3) by (rule attached_bound)
  let ?W0 = "log (CursorNext r) W"
  let ?W1 = "writer_release w ?W0"
  have a0: "attached ?W0 w = Some i" using assms(3) by simp
  have W1: "?W1 = (log (ReleaseLock w) ?W0)\<lparr>streams := (streams W)[i := (streams W ! i)\<lparr>s_writer := None\<rparr>],
                            writers := (writers W)[w := None]\<rparr>"
    using writer_release_attached [OF a0] by simp
  have v1: "v < length (streams ?W1)" using assms(5) by (simp add: W1)
  have v2: "s_writer (streams ?W1 ! v) = None" using assms(5,6,7) by (simp add: W1)
  note g = getWriter_ok [OF v1 v2]
  have len: "length (writers ?W1) = length (writers W)" by (simp add: W1)
  have sv: "streams ?W1 ! v = streams W ! v" using assms(5,6) by (simp add: W1)
  show ?thesis
    using assms(1,2,4)
    apply (simp add: sink_next_def release_current_def Let_def g len sv)
    apply (simp add: W1)
    done
qed

lemma attached_same:
  assumes "writers W' = writers W" and "length (streams W') = length (streams W)"
  shows "attached W' w = attached W w"
  using assms by (auto simp: attached_def split: option.splits)

lemma replicate_release: "(replicate i None @ [Some i])[i := None] = replicate (Suc i) None"
  by (simp add: list_update_append replicate_append_same)

lemma routed_advance:
  assumes "routed K N i p (s, W)" and "length p = (Suc i) * K" and "1 \<le> K" and "Suc i < N"
    and "iter s = Some c" and "c_next C (exceeded_error K) c = (Inr (IterYield (Suc i)), c')"
  shows "\<exists>W'. sink_write C limited_ops x (s, W) =
               (Inr (), (s\<lparr>iter := Some c', writer := Some (Suc i)\<rparr>, W'))
           \<and> routed K N (Suc i) (p @ [x]) (s\<lparr>iter := Some c', writer := Some (Suc i)\<rparr>, W')"
proof -
  from assms(1) have iN: "i < N" and lo: "i * K \<le> length p" and ws: "writer s = Some i"
    and wr: "writers W = replicate i None @ [Some i]" and len: "length (streams W) = N"
    by (simp_all add: routed_def)
  have at: "attached W i = Some i" using assms(1) by (rule routed_attached)
  from routed_consumer [OF assms(1) iN]
  have ci: "consumer K (slice K i p) Writable (Some i) True (streams W ! i)" by simp
  then have st: "s_state (streams W ! i) = Writable" and lk: "s_writer (streams W ! i) = Some i"
    and ok: "lim_ok K (slice K i p) True (s_sink (streams W ! i))"
    by (simp_all add: consumer_def)
  have sl: "length (slice K i p) = K" using assms(2) by (simp add: slice_length)
  from limited_write_full [OF ok sl, of x] obtain u1 where
    lw: "limited_write x (s_sink (streams W ! i)) = (Inl (exceeded_error K), u1)"
    and ok1: "lim_ok K (slice K i p) False u1" by blast
  have uw: "u_write limited_ops x (s_sink (streams W ! i)) = (Inl (exceeded_error K), u1)"
    using lw by (simp add: limited_ops_def)
  from submit_rejected [OF at st uw] obtain W1 where
    sb: "submit limited_ops i x W = (Inl (exceeded_error K), W1)"
    and sW1: "streams W1 = (streams W)[i := (streams W ! i)\<lparr>s_sink := u1, s_state := Errored (exceeded_error K)\<rparr>]"
    and wW1: "writers W1 = writers W" by auto
  have at1: "attached W1 i = Some i" using at attached_same [of W1 W i] by (simp add: sW1 wW1)
  from routed_consumer [OF assms(1) assms(4)]
  have cn: "consumer K (slice K (Suc i) p) Writable None True (streams W ! (Suc i))" by simp
  have sn: "slice K (Suc i) p = []" using assms(2) by (intro slice_after) simp
  have v1: "Suc i < length (streams W1)" using assms(4) len by (simp add: sW1)
  have v2: "s_writer (streams W1 ! (Suc i)) = None" using cn assms(4) len by (simp add: sW1 consumer_def)
  have lw1: "length (writers W1) = Suc i" by (simp add: wW1 wr)
  from sink_next_yield [OF assms(5) ws at1 _ v1 _ v2, of C "exceeded_error K" c'] assms(6)
  obtain W2 where
    nx: "sink_next C (exceeded_error K) (s, W1) =
           (Inr (Suc i), (s\<lparr>iter := Some c', writer := Some (Suc i)\<rparr>, W2))"
    and sW2: "streams W2 = (streams W1)[i := (streams W1 ! i)\<lparr>s_writer := None\<rparr>,
                                 Suc i := (streams W1 ! (Suc i))\<lparr>s_writer := Some (Suc i)\<rparr>]"
    and wW2: "writers W2 = (writers W1)[i := None] @ [Some (Suc i)]"
    using lw1 by auto
  have wW2': "writers W2 = replicate (Suc i) None @ [Some (Suc i)]"
    by (simp add: wW2 wW1 wr replicate_release)
  have at2: "attached W2 (Suc i) = Some (Suc i)"
    using assms(4) len by (simp add: attached_def wW2' sW2 sW1 nth_append)
  have s2n: "streams W2 ! (Suc i) = (streams W ! (Suc i))\<lparr>s_writer := Some (Suc i)\<rparr>"
    using assms(4) len by (simp add: sW2 sW1)
  have st2: "s_state (streams W2 ! (Suc i)) = Writable" using cn by (simp add: s2n consumer_def)
  have ok2: "lim_ok K [] True (s_sink (streams W2 ! (Suc i)))"
    using cn sn by (simp add: s2n consumer_def)
  have "length ([]::'a list) < K" using assms(3) by simp
  from limited_write_fits [OF ok2 this, of x] obtain u2 where
    lw2: "limited_write x (s_sink (streams W2 ! (Suc i))) = (Inr (), u2)"
    and ok3: "lim_ok K [x] True u2" by auto
  have uw2: "u_write limited_ops x (s_sink (streams W2 ! (Suc i))) = (Inr (), u2)"
    using lw2 by (simp add: limited_ops_def)
  from submit_accepted [OF at2 st2 uw2] obtain W3 where
    sb3: "submit limited_ops (Suc i) x W2 = (Inr (), W3)"
    and sW3: "streams W3 = (streams W2)[Suc i := (streams W2 ! (Suc i))\<lparr>s_sink := u2\<rparr>]"
    and wW3: "writers W3 = writers W2" by auto
  have sw: "sink_write C limited_ops x (s, W) =
      (Inr (), (s\<lparr>iter := Some c', writer := Some (Suc i)\<rparr>, W3))"
    using sink_write_retry [OF ws sb, of C] nx sb3 by simp
  have pi: "slice K i (p @ [x]) = slice K i p"
    using assms(2) by (intro slice_snoc_before) simp
  have pn: "slice K (Suc i) (p @ [x]) = [x]"
    using slice_snoc_at [of "Suc i" K p x] assms(2,3) sn by simp
  have all: "\<forall>j < N. consumer K (slice K j (p @ [x]))
                   (if j < Suc i then Errored (exceeded_error K) else Writable)
                   (if j = Suc i then Some (Suc i) else None) (Suc i \<le> j) (streams W3 ! j)"
  proof (intro allI impI)
    fix j assume jN: "j < N"
    note cj = routed_consumer [OF assms(1) jN]
    consider "j < i" | "j = i" | "j = Suc i" | "Suc i < j" by linarith
    then show "consumer K (slice K j (p @ [x]))
                   (if j < Suc i then Errored (exceeded_error K) else Writable)
                   (if j = Suc i then Some (Suc i) else None) (Suc i \<le> j) (streams W3 ! j)"
    proof cases
      case 1
      then have "(j + 1) * K \<le> length p" using mult_le_lt [OF 1, of K] lo by linarith
      then have "slice K j (p @ [x]) = slice K j p" by (rule slice_snoc_before)
      moreover have "streams W3 ! j = streams W ! j" using 1 jN len by (simp add: sW3 sW2 sW1)
      ultimately show ?thesis using cj 1 by simp
    next
      case 2
      have "streams W3 ! i = (streams W ! i)\<lparr>s_sink := u1, s_state := Errored (exceeded_error K),
              s_writer := None\<rparr>"
        using iN len by (simp add: sW3 sW2 sW1)
      with 2 ok1 pi show ?thesis by (simp add: consumer_def)
    next
      case 3
      have "streams W3 ! (Suc i) = (streams W ! (Suc i))\<lparr>s_writer := Some (Suc i), s_sink := u2\<rparr>"
        using assms(4) len by (simp add: sW3 sW2 sW1)
      with 3 ok3 pn cn show ?thesis by (simp add: consumer_def)
    next
      case 4
      then have b: "length (p @ [x]) \<le> j * K"
        using mult_lt_le [of "Suc i" j K] 4 assms(2,3) by simp
      then have "length p \<le> j * K" by simp
      then have "slice K j p = []" by (rule slice_after)
      moreover have "slice K j (p @ [x]) = []" using b by (rule slice_after)
      moreover have "streams W3 ! j = streams W ! j" using 4 jN len by (simp add: sW3 sW2 sW1)
      ultimately show ?thesis using cj 4 by simp
    qed
  qed
  have "routed K N (Suc i) (p @ [x]) (s\<lparr>iter := Some c', writer := Some (Suc i)\<rparr>, W3)"
    using all assms(2,3,4) len
    by (simp add: routed_def wW3 wW2' sW3 sW2 sW1)
  with sw show ?thesis by blast
qed

lemma consumer_data:
  assumes "consumer K d st lk opn x"
  shows "s_sink (streams (l_inner (s_sink x)) ! 0) = d"
  using assms
  by (cases opn) (simp_all add: consumer_def lim_ok_def inner_open_def inner_shut_def)

lemma routed_data:
  assumes "routed K N i p (s, W)" and "j < N"
  shows "data W j = slice K j p"
  using consumer_data [OF routed_consumer [OF assms]] by (simp add: data_def)

lemma routed_locked:
  assumes "routed K N i p (s, W)" and "j < N"
  shows "locked W j = (j = i)"
  using routed_consumer [OF assms] assms
  by (simp add: locked_def consumer_def routed_def)

lemma slice_append_before:
  assumes "(j + 1) * K \<le> length p" shows "slice K j (p @ q) = slice K j p"
  using assms by (simp add: slice_def)

lemma routed_exhaust:
  assumes "routed K N i p (s, W)" and "length p = Suc i * K" and "Suc i = N"
    and "iter s = Some c" and "c_next C (exceeded_error K) c = (Inr IterDone, c')"
  shows "\<exists>W'. sink_write C limited_ops x (s, W) =
               (Inl (RangeError ''Writable stream iterator has ended''), (s\<lparr>iter := Some c'\<rparr>, W'))
           \<and> (\<forall>j < N. data W' j = slice K j p) \<and> (\<forall>j < N. locked W' j = (j = i))
           \<and> last (trace W') = CursorNext (exceeded_error K)"
proof -
  from assms(1) have iN: "i < N" and lo: "i * K \<le> length p" and ws: "writer s = Some i"
    and wr: "writers W = replicate i None @ [Some i]" and len: "length (streams W) = N"
    by (simp_all add: routed_def)
  have at: "attached W i = Some i" using assms(1) by (rule routed_attached)
  from routed_consumer [OF assms(1) iN]
  have ci: "consumer K (slice K i p) Writable (Some i) True (streams W ! i)" by simp
  then have st: "s_state (streams W ! i) = Writable" and lk: "s_writer (streams W ! i) = Some i"
    and ok: "lim_ok K (slice K i p) True (s_sink (streams W ! i))"
    by (simp_all add: consumer_def)
  have sl: "length (slice K i p) = K" using assms(2) by (simp add: slice_length)
  from limited_write_full [OF ok sl, of x] obtain u1 where
    lw: "limited_write x (s_sink (streams W ! i)) = (Inl (exceeded_error K), u1)"
    and ok1: "lim_ok K (slice K i p) False u1" by blast
  have uw: "u_write limited_ops x (s_sink (streams W ! i)) = (Inl (exceeded_error K), u1)"
    using lw by (simp add: limited_ops_def)
  from submit_rejected [OF at st uw] obtain W1 where
    sb: "submit limited_ops i x W = (Inl (exceeded_error K), W1)"
    and sW1: "streams W1 = (streams W)[i := (streams W ! i)\<lparr>s_sink := u1, s_state := Errored (exceeded_error K)\<rparr>]"
    and wW1: "writers W1 = writers W" by auto
  let ?W' = "log (CursorNext (exceeded_error K)) W1"
  have nx: "sink_next C (exceeded_error K) (s, W1) =
      (Inl (RangeError ''Writable stream iterator has ended''), (s\<lparr>iter := Some c'\<rparr>, ?W'))"
    using assms(4,5) by (simp add: sink_next_def)
  have sw: "sink_write C limited_ops x (s, W) =
      (Inl (RangeError ''Writable stream iterator has ended''), (s\<lparr>iter := Some c'\<rparr>, ?W'))"
    using sink_write_retry [OF ws sb, of C] nx by simp
  have d: "\<forall>j < N. data ?W' j = slice K j p"
  proof (intro allI impI)
    fix j assume jN: "j < N"
    show "data ?W' j = slice K j p"
    proof (cases "j = i")
      case True
      have "consumer K (slice K i p) (Errored (exceeded_error K)) (Some i) False (streams W1 ! i)"
        using ok1 lk iN len by (simp add: sW1 consumer_def)
      from consumer_data [OF this] True show ?thesis by (simp add: data_def)
    next
      case False
      then have "streams W1 ! j = streams W ! j" using jN len by (simp add: sW1)
      then show ?thesis using routed_data [OF assms(1) jN] by (simp add: data_def)
    qed
  qed
  have l: "\<forall>j < N. locked ?W' j = (j = i)"
  proof (intro allI impI)
    fix j assume jN: "j < N"
    have "s_writer (streams W1 ! j) = s_writer (streams W ! j)"
      using jN len by (cases "j = i") (simp_all add: sW1)
    then show "locked ?W' j = (j = i)"
      using routed_locked [OF assms(1) jN] jN len by (simp add: locked_def sW1)
  qed
  from sw d l show ?thesis by (intro exI [of _ ?W']) simp
qed

lemma routed_start:
  assumes "0 < N" and "c_next C Undefined (c_open C g) = (Inr (IterYield 0), c0)"
  shows "\<exists>W. start C (new_sink g opts, (limited_world N K :: ('a, 'a limited) world)) =
             (Inr (), ((new_sink g opts)\<lparr>iter := Some c0, writer := Some 0\<rparr>, W))
         \<and> routed K N 0 [] ((new_sink g opts)\<lparr>iter := Some c0, writer := Some 0\<rparr>, W)"
proof -
  let ?W0 = "log (CursorNext Undefined) (limited_world N K :: ('a, 'a limited) world)"
  have v1: "0 < length (streams ?W0)" using assms(1) by (simp add: limited_world_def)
  have c0: "consumer K [] Writable None True (new_limited K :: 'a limited wstream)"
    by (rule new_limited_consumer)
  have v2: "s_writer (streams ?W0 ! 0) = None"
    using assms(1) c0 by (simp add: limited_world_def consumer_def)
  note g = getWriter_ok [OF v1 v2]
  let ?W = "(log (GetWriter 0) ?W0)\<lparr>streams := (streams ?W0)[0 := (streams ?W0 ! 0)\<lparr>s_writer := Some (length (writers ?W0))\<rparr>],
                          writers := writers ?W0 @ [Some 0]\<rparr>"
  have st: "start C (new_sink g opts, (limited_world N K :: ('a, 'a limited) world)) =
             (Inr (), ((new_sink g opts)\<lparr>iter := Some c0, writer := Some 0\<rparr>, ?W))"
    using assms(2) g
    by (simp add: start_def sink_next_def new_sink_def release_current_def Let_def limited_world_def)
  have all: "\<forall>j < N. consumer K (slice K j [])
                   (if j < 0 then Errored (exceeded_error K) else Writable)
                   (if j = 0 then Some 0 else None) (0 \<le> j) (streams ?W ! j)"
  proof (intro allI impI)
    fix j assume "j < N"
    then show "consumer K (slice K j [])
                   (if j < 0 then Errored (exceeded_error K) else Writable)
                   (if j = 0 then Some 0 else None) (0 \<le> j) (streams ?W ! j)"
      using c0 by (cases "j = 0") (simp_all add: slice_def limited_world_def consumer_def)
  qed
  have "routed K N 0 [] ((new_sink g opts)\<lparr>iter := Some c0, writer := Some 0\<rparr>, ?W)"
    using all assms(1) by (simp add: routed_def limited_world_def)
  with st show ?thesis by blast
qed

lemma routed_close:
  assumes "routed K N i p (s, W)" and "iter_return C (s, W) = (Inr (), (s1, W1))"
  shows "\<exists>W'. close C limited_ops (s, W) = (Inr (), (s1, W'))
           \<and> (\<forall>j < N. data W' j = slice K j p) \<and> (\<forall>j < N. \<not> locked W' j)"
proof -
  from assms(1) have iN: "i < N" and ws: "writer s = Some i"
    and wr: "writers W = replicate i None @ [Some i]" and len: "length (streams W) = N"
    by (simp_all add: routed_def)
  from assms(2) have s1: "writer s1 = Some i" "options s1 = options s"
    and W1: "streams W1 = streams W" "writers W1 = writers W"
    using ws by (auto simp: iter_return_def split: option.splits prod.splits)
  have r1: "routed K N i p (s1, W1)" using assms(1) s1 W1 by (simp add: routed_def)
  have len1: "length (streams W1) = N" using len W1 by simp
  have at: "attached W1 i = Some i" using r1 by (rule routed_attached)
  from routed_consumer [OF r1 iN]
  have ci: "consumer K (slice K i p) Writable (Some i) True (streams W1 ! i)" by simp
  then have st: "s_state (streams W1 ! i) = Writable"
    and ok: "lim_ok K (slice K i p) True (s_sink (streams W1 ! i))"
    by (simp_all add: consumer_def)
  have "\<exists>W' x. close C limited_ops (s, W) = (Inr (), (s1, W'))
           \<and> streams W' = (streams W1)[i := x] \<and> s_writer x = None
           \<and> s_sink (streams (l_inner (s_sink x)) ! 0) = slice K i p"
  proof (cases "prevent_close s1")
    case True
    define W' where "W' = writer_release i W1"
    have cl: "close C limited_ops (s, W) = (Inr (), (s1, W'))"
      using assms(2) True s1 by (simp add: close_def release_current_def W'_def)
    have sW': "streams W' = (streams W1)[i := (streams W1 ! i)\<lparr>s_writer := None\<rparr>]"
      unfolding W'_def by (subst writer_release_attached [OF at]) simp
    have "s_sink (streams (l_inner (s_sink ((streams W1 ! i)\<lparr>s_writer := None\<rparr>))) ! 0) = slice K i p"
      using consumer_data [OF ci] by simp
    with cl sW' show ?thesis by (intro exI [of _ W'] exI [of _ "(streams W1 ! i)\<lparr>s_writer := None\<rparr>"]) simp
  next
    case False
    from limited_close_open [OF ok] obtain u' where
      lc: "limited_close (s_sink (streams W1 ! i)) = (Inr (), u')"
      and ok': "lim_ok K (slice K i p) False u'" by blast
    have uc: "u_close limited_ops (s_sink (streams W1 ! i)) = (Inr (), u')"
      using lc by (simp add: limited_ops_def)
    define W2 where "W2 = set_stream i ((streams W1 ! i)\<lparr>s_sink := u', s_state := Closed\<rparr>) (log (Close i) W1)"
    have wc: "writer_close limited_ops i W1 = (Inr (), W2)"
      unfolding W2_def using at st uc by (rule writer_close_ok)
    have at2: "attached W2 i = Some i" using at by (simp add: W2_def)
    have sW2: "streams W2 = (streams W1)[i := (streams W1 ! i)\<lparr>s_sink := u', s_state := Closed\<rparr>]"
      by (simp add: W2_def)
    define W' where "W' = writer_release i W2"
    have cl: "close C limited_ops (s, W) = (Inr (), (s1, W'))"
      using assms(2) False s1 wc by (simp add: close_def release_current_def W'_def)
    have "streams W' = (streams W2)[i := (streams W2 ! i)\<lparr>s_writer := None\<rparr>]"
      unfolding W'_def by (subst writer_release_attached [OF at2]) simp
    then have sW': "streams W' = (streams W1)[i := (streams W1 ! i)\<lparr>s_sink := u', s_state := Closed, s_writer := None\<rparr>]"
      using iN len1 by (simp add: sW2)
    have "consumer K (slice K i p) Closed None False
            ((streams W1 ! i)\<lparr>s_sink := u', s_state := Closed, s_writer := None\<rparr>)"
      using ok' by (simp add: consumer_def)
    from consumer_data [OF this] cl sW' show ?thesis
      by (intro exI [of _ W'] exI [of _ "(streams W1 ! i)\<lparr>s_sink := u', s_state := Closed, s_writer := None\<rparr>"]) simp
  qed
  then obtain W' x where cl: "close C limited_ops (s, W) = (Inr (), (s1, W'))"
    and sW': "streams W' = (streams W1)[i := x]" and xw: "s_writer x = None"
    and xd: "s_sink (streams (l_inner (s_sink x)) ! 0) = slice K i p" by blast
  have d: "\<forall>j < N. data W' j = slice K j p"
  proof (intro allI impI)
    fix j assume jN: "j < N"
    show "data W' j = slice K j p"
    proof (cases "j = i")
      case True
      with xd iN len1 show ?thesis by (simp add: data_def sW')
    next
      case False
      then have "streams W' ! j = streams W1 ! j" by (simp add: sW')
      then show ?thesis using routed_data [OF r1 jN] by (simp add: data_def)
    qed
  qed
  have l: "\<forall>j < N. \<not> locked W' j"
  proof (intro allI impI)
    fix j assume jN: "j < N"
    show "\<not> locked W' j"
    proof (cases "j = i")
      case True
      with xw iN len1 show ?thesis by (simp add: locked_def sW')
    next
      case False
      then have "streams W' ! j = streams W1 ! j" by (simp add: sW')
      moreover have "\<not> locked W1 j" using routed_locked [OF r1 jN] False by simp
      ultimately show ?thesis by (simp add: locked_def sW')
    qed
  qed
  from cl d l show ?thesis by blast
qed

lemma steps_yield:
  assumes "steps C N pos fin" and "pos i c" and "Suc i < N"
  shows "\<exists>c'. c_next C r c = (Inr (IterYield (Suc i)), c') \<and> pos (Suc i) c'"
  using assms unfolding steps_def by (metis (full_types))

lemma steps_done:
  assumes "steps C N pos fin" and "pos i c" and "\<not> Suc i < N"
  shows "\<exists>c'. c_next C r c = (Inr IterDone, c') \<and> fin c'"
  using assms unfolding steps_def by (metis (full_types))

lemma routed_upper:
  assumes "routed K N i p (s, W)"
  shows "length p \<le> Suc i * K" and "Suc i * K \<le> N * K" and "i < N"
proof -
  from assms show "length p \<le> Suc i * K" and iN: "i < N" by (simp_all add: routed_def)
  from iN have "Suc i \<le> N" by simp
  then show "Suc i * K \<le> N * K" by (rule mult_le_mono1)
qed

lemma routed_write_all:
  assumes "steps C N pos fin" and "routed K N i p (s, W)" and "iter s = Some c" and "pos i c"
    and "length p + length xs \<le> N * K"
  shows "\<exists>s' W' i' c'. write_all C limited_ops xs (s, W) = (Inr (), (s', W'))
           \<and> routed K N i' (p @ xs) (s', W') \<and> iter s' = Some c' \<and> pos i' c'
           \<and> options s' = options s"
  using assms(2-5)
proof (induction xs arbitrary: p s W i c)
  case Nil
  then show ?case by auto
next
  case (Cons x xs)
  note up = routed_upper [OF Cons.prems(1)]
  have K1: "1 \<le> K" using Cons.prems(4) by (cases K) simp_all
  have nxt: "length (p @ [x]) + length xs \<le> N * K" using Cons.prems(4) by simp
  show ?case
  proof (cases "length p < Suc i * K")
    case True
    then have "length p < (i + 1) * K" by simp
    from routed_fit [OF Cons.prems(1) this, of C x] obtain W1 where
      sw: "sink_write C limited_ops x (s, W) = (Inr (), (s, W1))"
      and r1: "routed K N i (p @ [x]) (s, W1)" by blast
    from Cons.IH [OF r1 Cons.prems(2,3) nxt] sw show ?thesis by simp
  next
    case False
    with up(1) have full: "length p = Suc i * K" by simp
    have "Suc i * K < N * K" using full Cons.prems(4) by simp
    then have lt: "Suc i < N" by (simp only: mult_less_cancel2)
    from steps_yield [OF assms(1) Cons.prems(3) lt, of "exceeded_error K"] obtain c' where
      cn: "c_next C (exceeded_error K) c = (Inr (IterYield (Suc i)), c')" and p': "pos (Suc i) c'"
      by blast
    let ?s' = "s\<lparr>iter := Some c', writer := Some (Suc i)\<rparr>"
    from routed_advance [OF Cons.prems(1) full K1 lt Cons.prems(2) cn, of x] obtain W1 where
      sw: "sink_write C limited_ops x (s, W) = (Inr (), (?s', W1))"
      and r1: "routed K N (Suc i) (p @ [x]) (?s', W1)" by blast
    have it: "iter ?s' = Some c'" by simp
    from Cons.IH [OF r1 it p' nxt] sw show ?thesis by simp
  qed
qed

lemma routed_write_all_exhaust:
  assumes "steps C N pos fin" and "routed K N i p (s, W)" and "iter s = Some c" and "pos i c"
    and "N * K < length p + length xs" and "1 \<le> K"
  shows "\<exists>s' W' c'. write_all C limited_ops xs (s, W) =
             (Inl (RangeError ''Writable stream iterator has ended''), (s', W'))
           \<and> (\<forall>j < N. data W' j = slice K j (p @ xs))
           \<and> (\<forall>j < N. locked W' j = (Suc j = N))
           \<and> last (trace W') = CursorNext (exceeded_error K)
           \<and> iter s' = Some c' \<and> fin c'"
  using assms(2-5)
proof (induction xs arbitrary: p s W i c)
  case Nil
  from routed_upper [OF Nil.prems(1)] Nil.prems(4) show ?case by simp
next
  case (Cons x xs)
  note up = routed_upper [OF Cons.prems(1)]
  have nxt: "N * K < length (p @ [x]) + length xs" using Cons.prems(4) by simp
  show ?case
  proof (cases "length p < Suc i * K")
    case True
    then have "length p < (i + 1) * K" by simp
    from routed_fit [OF Cons.prems(1) this, of C x] obtain W1 where
      sw: "sink_write C limited_ops x (s, W) = (Inr (), (s, W1))"
      and r1: "routed K N i (p @ [x]) (s, W1)" by blast
    from Cons.IH [OF r1 Cons.prems(2,3) nxt] sw show ?thesis by simp
  next
    case False
    with up(1) have full: "length p = Suc i * K" by simp
    show ?thesis
    proof (cases "Suc i < N")
      case lt: True
      from steps_yield [OF assms(1) Cons.prems(3) lt, of "exceeded_error K"] obtain c' where
        cn: "c_next C (exceeded_error K) c = (Inr (IterYield (Suc i)), c')" and p': "pos (Suc i) c'"
        by blast
      let ?s' = "s\<lparr>iter := Some c', writer := Some (Suc i)\<rparr>"
      from routed_advance [OF Cons.prems(1) full assms(6) lt Cons.prems(2) cn, of x] obtain W1 where
        sw: "sink_write C limited_ops x (s, W) = (Inr (), (?s', W1))"
        and r1: "routed K N (Suc i) (p @ [x]) (?s', W1)" by blast
      have it: "iter ?s' = Some c'" by simp
      from Cons.IH [OF r1 it p' nxt] sw show ?thesis by simp
    next
      case nlt: False
      with up(3) have last: "Suc i = N" by simp
      from steps_done [OF assms(1) Cons.prems(3) nlt, of "exceeded_error K"] obtain c' where
        cn: "c_next C (exceeded_error K) c = (Inr IterDone, c')" and f: "fin c'" by blast
      from routed_exhaust [OF Cons.prems(1) full last Cons.prems(2) cn, of x] obtain W' where
        sw: "sink_write C limited_ops x (s, W) =
               (Inl (RangeError ''Writable stream iterator has ended''), (s\<lparr>iter := Some c'\<rparr>, W'))"
        and d: "\<forall>j < N. data W' j = slice K j p" and l: "\<forall>j < N. locked W' j = (j = i)"
        and t: "last (trace W') = CursorNext (exceeded_error K)" by blast
      have d': "\<forall>j < N. data W' j = slice K j (p @ x # xs)"
      proof (intro allI impI)
        fix j assume jN: "j < N"
        then have "Suc j \<le> N" by simp
        then have "Suc j * K \<le> N * K" by (rule mult_le_mono1)
        then have "(j + 1) * K \<le> length p" using full last by simp
        then have "slice K j (p @ x # xs) = slice K j p" by (rule slice_append_before)
        with d jN show "data W' j = slice K j (p @ x # xs)" by simp
      qed
      have l': "\<forall>j < N. locked W' j = (Suc j = N)" using l last by auto
      from sw d' l' t f show ?thesis by simp
    qed
  qed
qed

lemma concat_slices: "concat (map (\<lambda>j. slice K j xs) [0..<N]) = take (N * K) xs"
proof (induction N)
  case 0
  then show ?case by simp
next
  case (Suc N)
  have "take (N * K + K) xs = take (N * K) xs @ take K (drop (N * K) xs)"
    by (rule take_add)
  with Suc show ?case by (simp add: slice_def add.commute)
qed

lemma routed_index:
  assumes "routed K N i p (s, W)"
  shows "i = (length p - 1) div K"
proof (cases "length p = 0")
  case True
  with assms have "i = 0 \<or> i * K < 0" by (simp add: routed_def)
  with True show ?thesis by simp
next
  case False
  from assms have lo: "i * K \<le> length p" and hi: "length p \<le> Suc i * K"
    and st: "i = 0 \<or> i * K < length p" by (simp_all add: routed_def)
  have a: "K * i \<le> length p - 1"
  proof (cases "i = 0")
    case True then show ?thesis by simp
  next
    case False
    with st have "i * K < length p" by simp
    then show ?thesis by (simp add: mult.commute)
  qed
  have "0 < length p" using False by simp
  moreover have "length p \<le> K * Suc i" using hi by (simp only: mult.commute)
  ultimately have b: "length p - 1 < K * Suc i" by linarith
  from a b have "(length p - 1) div K = i" by (rule div_nat_eqI)
  then show ?thesis by simp
qed

lemma array_steps:
  "steps array_ops N (\<lambda>i c. c = ([0..<N], Suc i) \<and> i < N) (\<lambda>c. c = ([0..<N], N))"
  unfolding steps_def by (auto simp: array_ops_def)

lemma array_first:
  assumes "0 < N"
  shows "c_next array_ops Undefined (c_open array_ops [0..<N]) = (Inr (IterYield 0), ([0..<N], Suc 0))"
  using assms by (simp add: array_ops_def)

lemma generator_steps:
  "steps generator_ops N (\<lambda>i c. c = \<lparr>g_bound = N, g_pc = GenAtYield i, g_cnt = i\<rparr>) (\<lambda>c. True)"
  unfolding steps_def by (simp add: generator_ops_def gen_next_def gen_loop_def)

lemma generator_first:
  assumes "0 < N"
  shows "c_next generator_ops Undefined (c_open generator_ops N) =
           (Inr (IterYield 0), \<lparr>g_bound = N, g_pc = GenAtYield 0, g_cnt = 0\<rparr>)"
  using assms by (simp add: generator_ops_def gen_next_def gen_loop_def)

lemma empty_supply:
  "pipeTo array_ops limited_ops xs (new_sink [] opts, W) =
     (Inl (RangeError ''Writable stream iterator has ended''),
      ((new_sink [] opts)\<lparr>iter := Some ([], 0)\<rparr>, log (CursorNext Undefined) W))"
  by (simp add: pipeTo_def feed_def start_def sink_next_def new_sink_def array_ops_def)

lemma next_ended_iff:
  assumes "iter s = Some c"
    and "fst (c_next C r c) \<noteq> Inl (RangeError ''Writable stream iterator has ended'')"
  shows "fst (sink_next C r (s, W)) = Inl (RangeError ''Writable stream iterator has ended'')
         \<longleftrightarrow> fst (c_next C r c) = Inr IterDone"
proof (cases "c_next C r c")
  case (Pair res c')
  show ?thesis
  proof (cases res)
    case (Inl e)
    with Pair assms show ?thesis by (simp add: sink_next_def)
  next
    case (Inr ir)
    show ?thesis
    proof (cases ir)
      case IterDone
      with Pair Inr assms show ?thesis by (simp add: sink_next_def)
    next
      case (IterYield v)
      obtain gr W2 where g: "getWriter v (release_current s (log (CursorNext r) W)) = (gr, W2)"
        by (cases "getWriter v (release_current s (log (CursorNext r) W))")
      then have "gr \<noteq> Inl (RangeError ''Writable stream iterator has ended'')"
        by (auto simp: getWriter_def Let_def not_a_stream_error_def locked_error_def
            split: if_splits option.splits)
      with Pair Inr IterYield assms g show ?thesis
        by (cases gr) (simp_all add: sink_next_def Let_def)
    qed
  qed
qed

text \<open>
  Claim C1. A supply of \<open>N\<close> limited streams, each accepting at most \<open>K\<close>
  chunks, and an input of at most \<open>N * K\<close> chunks piped through the sink: consumer
  \<open>j\<close> receives the \<open>j\<close>-th block of \<open>K\<close> chunks, the concatenation of what the
  consumers received is the input, and no consumer is locked when the pipe has completed.
  (With no consumer at all the input is empty and \<open>start\<close> rejects.)
\<close>

theorem concat_distributes:
  assumes "length xs \<le> N * K"
  shows "\<exists>s W. pipeTo array_ops limited_ops xs (new_sink [0..<N] opts, limited_world N K) =
              ((if N = 0 then Inl (RangeError ''Writable stream iterator has ended'') else Inr ()),
               (s, W))
          \<and> (\<forall>j < N. data W j = take K (drop (j * K) xs))
          \<and> concat (map (data W) [0..<N]) = xs
          \<and> (\<forall>j < N. \<not> locked W j)"
proof (cases "N = 0")
  case True
  with assms have "xs = []" by simp
  with True show ?thesis by (simp add: empty_supply)
next
  case False
  then have N0: "0 < N" by simp
  let ?s0 = "(new_sink [0..<N] opts)\<lparr>iter := Some ([0..<N], Suc 0), writer := Some 0\<rparr>"
  from routed_start [OF N0 array_first [OF N0], of opts K] obtain W0 where
    st: "start array_ops (new_sink [0..<N] opts, (limited_world N K :: ('a, 'a limited) world)) = (Inr (), (?s0, W0))"
    and r0: "routed K N 0 [] (?s0, W0)" by blast
  have it0: "iter ?s0 = Some ([0..<N], Suc 0)" by simp
  have p0: "([0..<N], Suc 0) = ([0..<N], Suc 0) \<and> 0 < N" using N0 by simp
  have ln: "length ([]::'a list) + length xs \<le> N * K" using assms by simp
  from routed_write_all [OF array_steps r0 it0 p0 ln] obtain s1 W1 i1 where
    wa: "write_all array_ops limited_ops xs (?s0, W0) = (Inr (), (s1, W1))"
    and r1: "routed K N i1 xs (s1, W1)" by auto
  have ir: "iter_return array_ops (s1, W1) = (Inr (), (s1, W1))"
    by (simp add: iter_return_def array_ops_def split: option.splits)
  from routed_close [OF r1 ir] obtain W2 where
    cl: "close array_ops limited_ops (s1, W1) = (Inr (), (s1, W2))"
    and d: "\<forall>j < N. data W2 j = slice K j xs" and l: "\<forall>j < N. \<not> locked W2 j" by blast
  have pt: "pipeTo array_ops limited_ops xs (new_sink [0..<N] opts, limited_world N K) = (Inr (), (s1, W2))"
    using st wa cl by (simp add: pipeTo_def feed_def)
  have "map (data W2) [0..<N] = map (\<lambda>j. slice K j xs) [0..<N]" using d by simp
  then have "concat (map (data W2) [0..<N]) = take (N * K) xs" by (simp only: concat_slices)
  then have cc: "concat (map (data W2) [0..<N]) = xs" using assms by simp
  from pt d l cc False show ?thesis by (simp add: slice_def)
qed

text \<open>
  Claim C2, amended to consumers of size at least 1. An input longer than \<open>N * K\<close>
  makes the pipe reject with the sink's RangeError; the first \<open>N * K\<close> chunks have been
  delivered in order, the last call recorded is the \<open>next\<close> that passed the last
  consumer's rejection to the iterator, and the array iterator is at its end. For any
  iterator that does not itself throw that very error, \<open>next\<close> fails with it exactly
  when the iterator reports done.
\<close>

theorem exhaustion_raises:
  assumes "1 \<le> K" and "N * K < length xs"
  shows "(\<exists>s W. pipeTo array_ops limited_ops xs (new_sink [0..<N] opts, limited_world N K) =
              (Inl (RangeError ''Writable stream iterator has ended''), (s, W))
          \<and> (\<forall>j < N. data W j = take K (drop (j * K) xs))
          \<and> last (trace W) = CursorNext (if N = 0 then Undefined else exceeded_error K)
          \<and> iter s = Some ([0..<N], N))
       \<and> (iter s' = Some c' \<and>
            fst (c_next C r c') \<noteq> Inl (RangeError ''Writable stream iterator has ended'') \<longrightarrow>
            (fst (sink_next C r (s', W')) = Inl (RangeError ''Writable stream iterator has ended'')
             \<longleftrightarrow> fst (c_next C r c') = Inr IterDone))"
proof (intro conjI impI)
  show "\<exists>s W. pipeTo array_ops limited_ops xs (new_sink [0..<N] opts, limited_world N K) =
              (Inl (RangeError ''Writable stream iterator has ended''), (s, W))
          \<and> (\<forall>j < N. data W j = take K (drop (j * K) xs))
          \<and> last (trace W) = CursorNext (if N = 0 then Undefined else exceeded_error K)
          \<and> iter s = Some ([0..<N], N)"
  proof (cases "N = 0")
    case True
    then show ?thesis by (simp add: empty_supply)
  next
    case False
    then have N0: "0 < N" by simp
    let ?s0 = "(new_sink [0..<N] opts)\<lparr>iter := Some ([0..<N], Suc 0), writer := Some 0\<rparr>"
    from routed_start [OF N0 array_first [OF N0], of opts K] obtain W0 where
      st: "start array_ops (new_sink [0..<N] opts, (limited_world N K :: ('a, 'a limited) world)) = (Inr (), (?s0, W0))"
      and r0: "routed K N 0 [] (?s0, W0)" by blast
    have it0: "iter ?s0 = Some ([0..<N], Suc 0)" by simp
    have p0: "([0..<N], Suc 0) = ([0..<N], Suc 0) \<and> 0 < N" using N0 by simp
    have ln: "N * K < length ([]::'a list) + length xs" using assms by simp
    from routed_write_all_exhaust [OF array_steps r0 it0 p0 ln assms(1)] obtain s1 W1 where
      wa: "write_all array_ops limited_ops xs (?s0, W0) =
             (Inl (RangeError ''Writable stream iterator has ended''), (s1, W1))"
      and d: "\<forall>j < N. data W1 j = slice K j xs"
      and t: "last (trace W1) = CursorNext (exceeded_error K)"
      and it: "iter s1 = Some ([0..<N], N)" by auto
    have pt: "pipeTo array_ops limited_ops xs (new_sink [0..<N] opts, limited_world N K) =
        (Inl (RangeError ''Writable stream iterator has ended''), (s1, W1))"
      using st wa by (simp add: pipeTo_def feed_def)
    from pt d t it False show ?thesis by (simp add: slice_def)
  qed
next
  assume "iter s' = Some c' \<and>
            fst (c_next C r c') \<noteq> Inl (RangeError ''Writable stream iterator has ended'')"
  then show "fst (sink_next C r (s', W')) = Inl (RangeError ''Writable stream iterator has ended'')
             \<longleftrightarrow> fst (c_next C r c') = Inr IterDone"
    using next_ended_iff [of s' c' C r W'] by simp
qed

text \<open>
  Claim C8. With the generator supply, whose \<open>finally\<close> block counts in
  \<open>g_cnt\<close>: when all chunks have been written the counter is one less than the number
  of consumers used (the writers acquired), and \<open>close\<close> adds the cleanup of the last
  active item, so that the counter equals the number of consumers used when the pipe has
  completed.
\<close>

theorem generator_cleanup_count:
  assumes "0 < N" and "length xs \<le> N * K"
  shows "\<exists>s1 W1 s2 W2 g1 g2.
           feed generator_ops limited_ops xs (new_sink N opts, limited_world N K) = (Inr (), (s1, W1))
         \<and> pipeTo generator_ops limited_ops xs (new_sink N opts, limited_world N K) = (Inr (), (s2, W2))
         \<and> iter s1 = Some g1 \<and> iter s2 = Some g2
         \<and> length (writers W1) = Suc ((length xs - 1) div K)
         \<and> Suc (g_cnt g1) = length (writers W1)
         \<and> g_cnt g2 = length (writers W1)
         \<and> g_pc g2 = GenDone"
proof -
  let ?s0 = "(new_sink N opts)\<lparr>iter := Some \<lparr>g_bound = N, g_pc = GenAtYield 0, g_cnt = 0\<rparr>, writer := Some 0\<rparr>"
  from routed_start [OF assms(1) generator_first [OF assms(1)], of opts K] obtain W0 where
    st: "start generator_ops (new_sink N opts, (limited_world N K :: ('a, 'a limited) world)) = (Inr (), (?s0, W0))"
    and r0: "routed K N 0 [] (?s0, W0)" by blast
  have it0: "iter ?s0 = Some \<lparr>g_bound = N, g_pc = GenAtYield 0, g_cnt = 0\<rparr>" by simp
  have ln: "length ([]::'a list) + length xs \<le> N * K" using assms by simp
  from routed_write_all [OF generator_steps r0 it0 refl ln] obtain s1 W1 i1 where
    wa: "write_all generator_ops limited_ops xs (?s0, W0) = (Inr (), (s1, W1))"
    and r1: "routed K N i1 xs (s1, W1)"
    and it1: "iter s1 = Some \<lparr>g_bound = N, g_pc = GenAtYield i1, g_cnt = i1\<rparr>" by auto
  have fd: "feed generator_ops limited_ops xs (new_sink N opts, limited_world N K) = (Inr (), (s1, W1))"
    using st wa by (simp add: feed_def)
  let ?g2 = "\<lparr>g_bound = N, g_pc = GenDone, g_cnt = Suc i1\<rparr>"
  have ir: "iter_return generator_ops (s1, W1) = (Inr (), (s1\<lparr>iter := Some ?g2\<rparr>, log CursorReturn W1))"
    using it1 by (simp add: iter_return_def generator_ops_def gen_return_def)
  from routed_close [OF r1 ir] obtain W2 where
    cl: "close generator_ops limited_ops (s1, W1) = (Inr (), (s1\<lparr>iter := Some ?g2\<rparr>, W2))" by blast
  have pt: "pipeTo generator_ops limited_ops xs (new_sink N opts, limited_world N K) =
      (Inr (), (s1\<lparr>iter := Some ?g2\<rparr>, W2))"
    using fd cl by (simp add: pipeTo_def)
  have lw: "length (writers W1) = Suc i1" using r1 by (simp add: routed_def)
  have ix: "i1 = (length xs - 1) div K" using r1 by (rule routed_index)
  from fd pt it1 lw ix show ?thesis by simp
qed

section \<open>The tests and other concrete runs\<close>

text \<open>The first test: four consumers of size 2 and the seven chunks A to G.\<close>

theorem concat_distributes_witness:
  "length ''ABCDEFG'' \<le> 4 * 2 \<and>
   (\<exists>s W. pipeTo array_ops limited_ops ''ABCDEFG'' (new_sink [0..<4] None, limited_world 4 2) =
             (Inr (), (s, W))
      \<and> data W 0 = ''AB'' \<and> data W 1 = ''CD'' \<and> data W 2 = ''EF'' \<and> data W 3 = ''G''
      \<and> \<not> locked W 0 \<and> \<not> locked W 1 \<and> \<not> locked W 2 \<and> \<not> locked W 3)"
proof -
  have h: "length ''ABCDEFG'' \<le> 4 * 2" by simp
  from concat_distributes [OF h, of None] obtain s W where
    p: "pipeTo array_ops limited_ops ''ABCDEFG'' (new_sink [0..<4] None, limited_world 4 2) =
          (Inr (), (s, W))"
    and d: "\<forall>j < 4. data W j = take 2 (drop (j * 2) ''ABCDEFG'')"
    and l: "\<forall>j < 4. \<not> locked W j" by auto
  from d have "data W 0 = ''AB''" "data W 1 = ''CD''" "data W 2 = ''EF''" "data W 3 = ''G''"
    by simp_all
  moreover from l have "\<not> locked W 0" "\<not> locked W 1" "\<not> locked W 2" "\<not> locked W 3" by simp_all
  ultimately show ?thesis using h p by blast
qed

text \<open>Claim C2 as stated fails for consumers of size 0: with two of them, the single retry of the first chunk is rejected by the second consumer and that rejection is the result, although the iterator has not reported done.\<close>

theorem exhaustion_counterexample:
  "2 * 0 < length ''x'' \<and>
   fst (pipeTo array_ops limited_ops ''x'' (new_sink [0..<2] None, limited_world 2 0)) =
     Inl (exceeded_error 0) \<and>
   exceeded_error 0 \<noteq> RangeError ''Writable stream iterator has ended''"
  by code_simp

text \<open>The second test: three consumers of size 2 and ten chunks.\<close>

theorem exhaustion_raises_witness:
  "(1::nat) \<le> 2 \<and> 3 * 2 < length [0..<10::nat] \<and>
   (\<exists>s W. pipeTo array_ops limited_ops [0..<10::nat] (new_sink [0..<3] None, limited_world 3 2) =
             (Inl (RangeError ''Writable stream iterator has ended''), (s, W))
      \<and> data W 0 = [0, 1] \<and> data W 1 = [2, 3] \<and> data W 2 = [4, 5]
      \<and> last (trace W) = CursorNext (exceeded_error 2))
   \<and> iter (fst one_started) = Some ([0..<1], 1)
   \<and> fst (c_next array_ops Undefined ([0..<1], 1)) \<noteq> Inl (RangeError ''Writable stream iterator has ended'')
   \<and> (fst (sink_next array_ops Undefined one_started) = Inl (RangeError ''Writable stream iterator has ended'')
        \<longleftrightarrow> fst (c_next array_ops Undefined ([0..<1], 1)) = Inr IterDone)"
proof -
  have h1: "(1::nat) \<le> 2" by simp
  have h2: "3 * 2 < length [0..<10::nat]" by simp
  have h3: "iter (fst one_started) = Some ([0..<1], 1)" by code_simp
  have h4: "fst (c_next array_ops Undefined ([0..<1], 1)) \<noteq> Inl (RangeError ''Writable stream iterator has ended'')"
    by code_simp
  note th = exhaustion_raises [OF h1 h2, of None "fst one_started" "([0..<1], 1)" array_ops Undefined "snd one_started"]
  from th obtain s W where
    p: "pipeTo array_ops limited_ops [0..<10::nat] (new_sink [0..<3] None, limited_world 3 2) =
             (Inl (RangeError ''Writable stream iterator has ended''), (s, W))"
    and d: "\<forall>j < 3. data W j = take 2 (drop (j * 2) [0..<10::nat])"
    and t: "last (trace W) = CursorNext (if (3::nat) = 0 then Undefined else exceeded_error 2)"
    by blast
  have d0: "data W 0 = [0, 1]" using d by (simp add: upt_rec)
  have d1: "data W 1 = [2, 3]" using d by (simp add: upt_rec)
  have d2: "data W 2 = [4, 5]" using d by (simp add: upt_rec)
  from t have t': "last (trace W) = CursorNext (exceeded_error 2)" by simp
  from th h3 h4 have iff: "fst (sink_next array_ops Undefined one_started) = Inl (RangeError ''Writable stream iterator has ended'')
        \<longleftrightarrow> fst (c_next array_ops Undefined ([0..<1], 1)) = Inr IterDone" by simp
  from h1 h2 h3 h4 p d0 d1 d2 t' iff show ?thesis by blast
qed

text \<open>The third test: three consumers of size 5 offered, ten chunks, two cleanups.\<close>

theorem generator_cleanup_count_witness:
  "(0::nat) < 3 \<and> length [0..<10::nat] \<le> 3 * 5 \<and>
   (\<exists>s1 W1 s2 W2 g1 g2.
       feed generator_ops limited_ops [0..<10::nat] (new_sink 3 None, limited_world 3 5) = (Inr (), (s1, W1))
     \<and> pipeTo generator_ops limited_ops [0..<10::nat] (new_sink 3 None, limited_world 3 5) = (Inr (), (s2, W2))
     \<and> iter s1 = Some g1 \<and> iter s2 = Some g2 \<and> g_cnt g1 = 1 \<and> g_cnt g2 = 2)"
proof -
  have h1: "(0::nat) < 3" by simp
  have h2: "length [0..<10::nat] \<le> 3 * 5" by simp
  from generator_cleanup_count [OF h1 h2, of None] obtain s1 W1 s2 W2 g1 g2 where
    f: "feed generator_ops limited_ops [0..<10::nat] (new_sink 3 None, limited_world 3 5) = (Inr (), (s1, W1))"
    and p: "pipeTo generator_ops limited_ops [0..<10::nat] (new_sink 3 None, limited_world 3 5) = (Inr (), (s2, W2))"
    and i: "iter s1 = Some g1" "iter s2 = Some g2"
    and n: "length (writers W1) = Suc ((length [0..<10::nat] - 1) div 5)"
    and c: "Suc (g_cnt g1) = length (writers W1)" "g_cnt g2 = length (writers W1)" by blast
  from n have "length (writers W1) = 2" by simp
  with c have "g_cnt g1 = 1" "g_cnt g2 = 2" by simp_all
  with h1 h2 f p i show ?thesis by blast
qed

text \<open>The second chunk on two consumers of size 1.\<close>

theorem write_failure_retries_once_witness:
  "writer (fst two_full) = Some 0 \<and> iter (fst two_full) = Some ([0..<2], 1)
   \<and> fst (submit limited_ops 0 (CHR ''B'') (snd two_full)) = Inl (exceeded_error 1)
   \<and> filter is_advance (since (snd two_full)
         (snd (snd (sink_write array_ops limited_ops (CHR ''B'') two_full)))) =
       [CursorNext (exceeded_error 1)]
   \<and> fst (sink_write array_ops limited_ops (CHR ''B'') two_full) = Inr ()
   \<and> writer (fst (snd (sink_write array_ops limited_ops (CHR ''B'') two_full))) = Some 1
   \<and> data (snd (snd (sink_write array_ops limited_ops (CHR ''B'') two_full))) 1 = ''B''"
proof -
  have h1: "writer (fst two_full) = Some 0" by code_simp
  have h2: "iter (fst two_full) = Some ([0..<2], 1)" by code_simp
  have h3: "fst (submit limited_ops 0 (CHR ''B'') (snd two_full)) = Inl (exceeded_error 1)"
    by code_simp
  then have h3': "submit limited_ops 0 (CHR ''B'') (snd two_full) =
      (Inl (exceeded_error 1), snd (submit limited_ops 0 (CHR ''B'') (snd two_full)))"
    by (simp add: prod_eq_iff)
  from write_failure_retries_once [OF h1 h2 h3', of array_ops]
  have "filter is_advance (since (snd two_full)
         (snd (snd (sink_write array_ops limited_ops (CHR ''B'') two_full)))) =
       [CursorNext (exceeded_error 1)]"
    by auto
  moreover have "fst (sink_write array_ops limited_ops (CHR ''B'') two_full) = Inr ()"
    by code_simp
  moreover have "writer (fst (snd (sink_write array_ops limited_ops (CHR ''B'') two_full))) = Some 1"
    by code_simp
  moreover have "data (snd (snd (sink_write array_ops limited_ops (CHR ''B'') two_full))) 1 = ''B''"
    by code_simp
  ultimately show ?thesis using h1 h2 h3 by blast
qed

text \<open>A chunk written while the current consumer is errored goes to the next consumer.\<close>

theorem ready_rejection_advances_witness:
  "writer (fst two_errored) = Some 0 \<and> iter (fst two_errored) = Some ([0..<2], 1)
   \<and> fst (writer_ready 0 (snd two_errored)) = Inl (Value 7)
   \<and> since (snd two_errored) (snd (writer_ready 0 (snd two_errored))) = [Ready 0]
   \<and> filter is_advance (since (snd two_errored)
         (snd (snd (sink_write array_ops limited_ops (CHR ''x'') two_errored)))) =
       [CursorNext (Value 7)]
   \<and> fst (sink_write array_ops limited_ops (CHR ''x'') two_errored) = Inr ()
   \<and> data (snd (snd (sink_write array_ops limited_ops (CHR ''x'') two_errored))) 0 = []
   \<and> data (snd (snd (sink_write array_ops limited_ops (CHR ''x'') two_errored))) 1 = ''x''"
proof -
  have h1: "writer (fst two_errored) = Some 0" by code_simp
  have h2: "iter (fst two_errored) = Some ([0..<2], 1)" by code_simp
  have h3: "fst (writer_ready 0 (snd two_errored)) = Inl (Value 7)" by code_simp
  then have h3': "writer_ready 0 (snd two_errored) =
      (Inl (Value 7), snd (writer_ready 0 (snd two_errored)))"
    by (simp add: prod_eq_iff)
  note th = ready_rejection_advances [OF h1 h2 h3', of array_ops limited_ops "CHR ''x''",
      unfolded prod.collapse]
  have "since (snd two_errored) (snd (writer_ready 0 (snd two_errored))) = [Ready 0]"
    by (rule conjunct1 [OF conjunct2 [OF th]])
  moreover have "filter is_advance (since (snd two_errored)
         (snd (snd (sink_write array_ops limited_ops (CHR ''x'') two_errored)))) =
       [CursorNext (Value 7)]"
    by (rule conjunct2 [OF conjunct2 [OF th]])
  moreover have "fst (sink_write array_ops limited_ops (CHR ''x'') two_errored) = Inr ()"
    by code_simp
  moreover have "data (snd (snd (sink_write array_ops limited_ops (CHR ''x'') two_errored))) 0 = []"
    by code_simp
  moreover have "data (snd (snd (sink_write array_ops limited_ops (CHR ''x'') two_errored))) 1 = ''x''"
    by code_simp
  ultimately show ?thesis using h1 h2 h3 by blast
qed

text \<open>Claim C4 as stated fails: an advance that finds the supply exhausted throws before it releases, and the consumer stays locked; so does the last consumer of the second test.\<close>

theorem handle_left_locked:
  "fst (sink_next array_ops (Value 0) one_started) =
     Inl (RangeError ''Writable stream iterator has ended'')
   \<and> locked (snd (snd (sink_next array_ops (Value 0) one_started))) 0
   \<and> fst (pipeTo array_ops limited_ops [0..<10::nat] (new_sink [0..<3] None, limited_world 3 2)) =
       Inl (RangeError ''Writable stream iterator has ended'')
   \<and> locked (snd (snd (pipeTo array_ops limited_ops [0..<10::nat]
                 (new_sink [0..<3] None, limited_world 3 2)))) 2"
  by code_simp

text \<open>
  Two consumers of size 1, from construction through \<open>start\<close> and the first chunk: the
  advance to the second consumer releases writer 0 before it acquires writer 1, one
  writer is attached at the peak, and \<open>close\<close> or \<open>abort\<close> leave nothing locked.
\<close>

theorem handle_discipline_witness:
  "sole_holder (new_sink [0..<2] None, (limited_world 2 1 :: (char, char limited) world))
   \<and> sole_holder two_full
   \<and> writer (fst two_full) = Some 0
   \<and> GetWriter 1 \<in> set (since (snd two_full) (snd (snd (sink_next array_ops (Value 0) two_full))))
   \<and> since (snd two_full) (snd (snd (sink_next array_ops (Value 0) two_full))) =
        [CursorNext (Value 0), ReleaseLock 0, GetWriter 1]
   \<and> at_most_one (snd two_full) (snd (snd (sink_next array_ops (Value 0) two_full)))
   \<and> peak (skel (snd two_full)) [CursorNext (Value 0), ReleaseLock 0, GetWriter 1 :: char event] = 1
   \<and> sink_next array_ops (Value 0) two_full =
        (Inr 1, snd (sink_next array_ops (Value 0) two_full))
   \<and> sole_holder (snd (sink_next array_ops (Value 0) two_full))
   \<and> attached (snd (snd (sink_next array_ops (Value 0) two_full))) 0 = None
   \<and> attached (snd (snd (sink_next array_ops (Value 0) two_full))) 1 = Some 1
   \<and> \<not> locked (snd (snd (sink_next array_ops (Value 0) two_full))) 0
   \<and> locked (snd (snd (sink_next array_ops (Value 0) two_full))) 1
   \<and> at_most_one (snd two_full) (snd (snd (sink_write array_ops limited_ops (CHR ''B'') two_full)))
   \<and> close array_ops limited_ops two_full =
        (Inr (), snd (close array_ops limited_ops two_full))
   \<and> (\<forall>i. \<not> locked (snd (snd (close array_ops limited_ops two_full))) i)
   \<and> abort array_ops limited_ops (Value 0) two_full =
        (Inr (), snd (abort array_ops limited_ops (Value 0) two_full))
   \<and> (\<forall>i. \<not> locked (snd (snd (abort array_ops limited_ops (Value 0) two_full))) i)"
proof -
  let ?cfg0 = "(new_sink [0..<2] None, (limited_world 2 1 :: (char, char limited) world))"
  have h0: "sole_holder ?cfg0"
    by (simp add: sole_holder_def wf_world_def limited_world_def new_sink_def new_limited_def)
  obtain s1 W1 where c1: "snd (start array_ops ?cfg0) = (s1, W1)"
    by (cases "snd (start array_ops ?cfg0)")
  from handle_discipline [OF h0, of array_ops, THEN conjunct1] have h1: "sole_holder (s1, W1)"
    by (simp only: c1)
  have tf: "two_full = snd (sink_write array_ops limited_ops (CHR ''A'') (snd (start array_ops ?cfg0)))"
    by code_simp
  from handle_discipline [OF h1, of array_ops limited_ops "CHR ''A''", THEN conjunct2, THEN conjunct1]
  have h2: "sole_holder two_full" by (simp only: tf c1)
  obtain s W where sw: "two_full = (s, W)" by (cases two_full)
  note hd = handle_discipline [OF h2 [unfolded sw], of array_ops limited_ops "CHR ''B''" "Value 0",
      folded sw]
  let ?N = "sink_next array_ops (Value 0) two_full"
  have w0: "writer (fst two_full) = Some 0" by code_simp
  have g1: "GetWriter 1 \<in> set (since (snd two_full) (snd (snd ?N)))" by code_simp
  from hd w0 g1 have tr: "since (snd two_full) (snd (snd ?N)) =
      [CursorNext (Value 0), ReleaseLock 0, GetWriter 1]" by (simp add: sw)
  from hd have am: "at_most_one (snd two_full) (snd (snd ?N))" by (simp add: sw)
  have pk: "peak (skel (snd two_full)) [CursorNext (Value 0), ReleaseLock 0, GetWriter 1 :: char event] = 1"
    by code_simp
  have "fst ?N = Inr 1" by code_simp
  then have n: "?N = (Inr 1, snd ?N)" by (simp add: prod_eq_iff)
  from hd have shn: "sole_holder (snd ?N)" by simp
  from hd n w0 have a0: "attached (snd (snd ?N)) 0 = None"
    unfolding sw by (metis fst_conv prod.collapse)
  have a1: "attached (snd (snd ?N)) 1 = Some 1" by code_simp
  from hd n have "\<forall>i. locked (snd (snd ?N)) i \<longrightarrow> attached (snd (snd ?N)) 1 = Some i"
    by (metis prod.collapse)
  with a1 have lk: "\<not> locked (snd (snd ?N)) 0" by auto
  have lk1: "locked (snd (snd ?N)) 1" by code_simp
  from hd have aw: "at_most_one (snd two_full)
      (snd (snd (sink_write array_ops limited_ops (CHR ''B'') two_full)))" by (simp add: sw)
  have c: "fst (close array_ops limited_ops two_full) = Inr ()" by code_simp
  then have c': "close array_ops limited_ops two_full =
        (Inr (), snd (close array_ops limited_ops two_full))" by (simp add: prod_eq_iff)
  have a: "fst (abort array_ops limited_ops (Value 0) two_full) = Inr ()" by code_simp
  then have a': "abort array_ops limited_ops (Value 0) two_full =
        (Inr (), snd (abort array_ops limited_ops (Value 0) two_full))" by (simp add: prod_eq_iff)
  from hd c' have lc: "\<forall>i. \<not> locked (snd (snd (close array_ops limited_ops two_full))) i"
    by (metis prod.collapse)
  from hd a' have la: "\<forall>i. \<not> locked (snd (snd (abort array_ops limited_ops (Value 0) two_full))) i"
    by (metis prod.collapse)
  from h0 h2 w0 g1 tr am pk n shn a0 a1 lk lk1 aw c' lc a' la show ?thesis by blast
qed

text \<open>Claim C5 as stated fails: the pull is recorded before the release, and on an exhausted generator the cleanup of the departed item has run while its stream is still locked.\<close>

theorem advance_pulls_before_release:
  "since (snd (gen_started 2 None))
     (snd (snd (sink_next generator_ops (Value 0) (gen_started 2 None)))) =
     [CursorNext (Value 0), ReleaseLock 0, GetWriter 1]
   \<and> \<not> before (ReleaseLock 0) (CursorNext (Value 0))
        (since (snd (gen_started 2 None))
           (snd (snd (sink_next generator_ops (Value 0) (gen_started 2 None)))))
   \<and> before (CursorNext (Value 0)) (ReleaseLock 0)
        (since (snd (gen_started 2 None))
           (snd (snd (sink_next generator_ops (Value 0) (gen_started 2 None)))))
   \<and> map_option g_cnt (iter (fst (gen_started 1 None))) = Some 0
   \<and> map_option g_cnt (iter (fst (snd (sink_next generator_ops (Value 0) (gen_started 1 None)))))
       = Some 1
   \<and> locked (snd (snd (sink_next generator_ops (Value 0) (gen_started 1 None)))) 0"
  by code_simp

text \<open>The advance from the first to the second stream of the generator.\<close>

theorem advance_order_witness:
  "iter (fst (gen_started 2 None)) = Some \<lparr>g_bound = 2, g_pc = GenAtYield 0, g_cnt = 0\<rparr>
   \<and> writer (fst (gen_started 2 None)) = Some 0
   \<and> attached (snd (gen_started 2 None)) 0 = Some 0
   \<and> c_next generator_ops (Value 0) \<lparr>g_bound = 2, g_pc = GenAtYield 0, g_cnt = 0\<rparr> =
        (Inr (IterYield 1), \<lparr>g_bound = 2, g_pc = GenAtYield 1, g_cnt = 1\<rparr>)
   \<and> 1 < length (streams (snd (gen_started 2 None)))
   \<and> s_writer (streams (snd (gen_started 2 None)) ! 1) = None
   \<and> (\<exists>W'. sink_next generator_ops (Value 0) (gen_started 2 None) =
              (Inr 1, ((fst (gen_started 2 None))
                 \<lparr>iter := Some \<lparr>g_bound = 2, g_pc = GenAtYield 1, g_cnt = 1\<rparr>, writer := Some 1\<rparr>, W'))
         \<and> since (snd (gen_started 2 None)) W' = [CursorNext (Value 0), ReleaseLock 0, GetWriter 1]
         \<and> attached W' 0 = None \<and> attached W' 1 = Some 1 \<and> \<not> locked W' 0
         \<and> s_state (streams W' ! 0) = Writable)"
proof -
  let ?s = "fst (gen_started 2 None)" and ?W = "snd (gen_started 2 None)"
  let ?c = "\<lparr>g_bound = 2, g_pc = GenAtYield 0, g_cnt = 0\<rparr>"
  let ?c' = "\<lparr>g_bound = 2, g_pc = GenAtYield 1, g_cnt = 1\<rparr>"
  have h1: "iter ?s = Some ?c" by code_simp
  have h2: "writer ?s = Some 0" by code_simp
  have h3: "attached ?W 0 = Some 0" by code_simp
  have h4: "c_next generator_ops (Value 0) ?c = (Inr (IterYield 1), ?c')" by code_simp
  have h5: "1 < length (streams ?W)" by code_simp
  have h6: "s_writer (streams ?W ! 1) = None" by code_simp
  have lw: "length (writers ?W) = 1" by code_simp
  have st: "s_state (streams ?W ! 0) = Writable" by code_simp
  from advance_order [OF h1 h2 h3, of generator_ops "Value 0"] h4 h5 h6
  obtain W' where "sink_next generator_ops (Value 0) (?s, ?W) =
                     (Inr (length (writers ?W)),
                      (?s\<lparr>iter := Some ?c', writer := Some (length (writers ?W))\<rparr>, W'))"
    and "since ?W W' = [CursorNext (Value 0), ReleaseLock 0, GetWriter 1]"
    and "attached W' 0 = None" and "attached W' (length (writers ?W)) = Some 1"
    and "\<not> locked W' 0" and "s_state (streams W' ! 0) = s_state (streams ?W ! 0)"
    by (metis zero_neq_one)
  with lw st have "sink_next generator_ops (Value 0) (gen_started 2 None) =
              (Inr 1, (?s\<lparr>iter := Some ?c', writer := Some 1\<rparr>, W'))
         \<and> since ?W W' = [CursorNext (Value 0), ReleaseLock 0, GetWriter 1]
         \<and> attached W' 0 = None \<and> attached W' 1 = Some 1 \<and> \<not> locked W' 0
         \<and> s_state (streams W' ! 0) = Writable" by simp
  with h1 h2 h3 h4 h5 h6 show ?thesis by blast
qed

text \<open>\<open>close\<close> on the generator supply, without options and with \<open>preventClose\<close>.\<close>

theorem close_order_witness:
  "iter (fst (gen_started 1 None)) = Some \<lparr>g_bound = 1, g_pc = GenAtYield 0, g_cnt = 0\<rparr>
   \<and> c_return generator_ops = Some gen_return
   \<and> gen_return \<lparr>g_bound = 1, g_pc = GenAtYield 0, g_cnt = 0\<rparr> =
        (Inr (), \<lparr>g_bound = 1, g_pc = GenDone, g_cnt = 1\<rparr>)
   \<and> writer (fst (gen_started 1 None)) = Some 0
   \<and> attached (snd (gen_started 1 None)) 0 = Some 0
   \<and> \<not> prevent_close (fst (gen_started 1 None))
   \<and> s_state (streams (snd (gen_started 1 None)) ! 0) = Writable
   \<and> fst (u_close limited_ops (s_sink (streams (snd (gen_started 1 None)) ! 0))) = Inr ()
   \<and> (\<exists>W'. close generator_ops limited_ops (gen_started 1 None) =
              (Inr (), ((fst (gen_started 1 None))
                 \<lparr>iter := Some \<lparr>g_bound = 1, g_pc = GenDone, g_cnt = 1\<rparr>\<rparr>, W'))
         \<and> since (snd (gen_started 1 None)) W' = [CursorReturn, Close 0, ReleaseLock 0]
         \<and> s_state (streams W' ! 0) = Closed \<and> \<not> locked W' 0)
   \<and> prevent_close (fst (gen_started 1 quiet))
   \<and> (\<exists>W'. close generator_ops limited_ops (gen_started 1 quiet) =
              (Inr (), ((fst (gen_started 1 quiet))
                 \<lparr>iter := Some \<lparr>g_bound = 1, g_pc = GenDone, g_cnt = 1\<rparr>\<rparr>, W'))
         \<and> since (snd (gen_started 1 quiet)) W' = [CursorReturn, ReleaseLock 0]
         \<and> s_state (streams W' ! 0) = Writable \<and> \<not> locked W' 0)"
proof -
  let ?s = "fst (gen_started 1 None)" and ?W = "snd (gen_started 1 None)"
  let ?q = "fst (gen_started 1 quiet)" and ?Q = "snd (gen_started 1 quiet)"
  let ?c = "\<lparr>g_bound = 1, g_pc = GenAtYield 0, g_cnt = 0\<rparr>"
  let ?c' = "\<lparr>g_bound = 1, g_pc = GenDone, g_cnt = 1\<rparr>"
  have h1: "iter ?s = Some ?c" by code_simp
  have h2: "c_return generator_ops = Some gen_return" by (simp add: generator_ops_def)
  have h3: "gen_return ?c = (Inr (), ?c')" by code_simp
  have h4: "writer ?s = Some 0" by code_simp
  have h5: "attached ?W 0 = Some 0" by code_simp
  have h6: "\<not> prevent_close ?s" by code_simp
  have h7: "s_state (streams ?W ! 0) = Writable" by code_simp
  have h8: "fst (u_close limited_ops (s_sink (streams ?W ! 0))) = Inr ()" by code_simp
  have q1: "iter ?q = Some ?c" by code_simp
  have q4: "writer ?q = Some 0" by code_simp
  have q5: "attached ?Q 0 = Some 0" by code_simp
  have q6: "prevent_close ?q" by code_simp
  have q7: "s_state (streams ?Q ! 0) = Writable" by code_simp
  from close_order [OF h1 h2 h3 h4 h5, of limited_ops] h6 h7 h8
  have a: "\<exists>W'. close generator_ops limited_ops (gen_started 1 None) = (Inr (), (?s\<lparr>iter := Some ?c'\<rparr>, W'))
         \<and> since ?W W' = [CursorReturn, Close 0, ReleaseLock 0]
         \<and> s_state (streams W' ! 0) = Closed \<and> \<not> locked W' 0" by simp
  from close_order [OF q1 h2 h3 q4 q5, of limited_ops] q6 q7
  have b: "\<exists>W'. close generator_ops limited_ops (gen_started 1 quiet) = (Inr (), (?q\<lparr>iter := Some ?c'\<rparr>, W'))
         \<and> since ?Q W' = [CursorReturn, ReleaseLock 0]
         \<and> s_state (streams W' ! 0) = Writable \<and> \<not> locked W' 0" by simp
  from h1 h2 h3 h4 h5 h6 h7 h8 a q6 b show ?thesis by blast
qed

text \<open>\<open>abort\<close> on the generator supply, whose \<open>throw\<close> rethrows the reason; without options and with \<open>preventAbort\<close>.\<close>

theorem abort_order_witness:
  "iter (fst (gen_started 1 None)) = Some \<lparr>g_bound = 1, g_pc = GenAtYield 0, g_cnt = 0\<rparr>
   \<and> c_throw generator_ops = Some gen_throw
   \<and> gen_throw (Value 9) \<lparr>g_bound = 1, g_pc = GenAtYield 0, g_cnt = 0\<rparr> =
        (Inl (Value 9), \<lparr>g_bound = 1, g_pc = GenDone, g_cnt = 1\<rparr>)
   \<and> writer (fst (gen_started 1 None)) = Some 0
   \<and> attached (snd (gen_started 1 None)) 0 = Some 0
   \<and> \<not> prevent_abort (fst (gen_started 1 None))
   \<and> s_state (streams (snd (gen_started 1 None)) ! 0) = Writable
   \<and> fst (u_abort limited_ops (Value 9) (s_sink (streams (snd (gen_started 1 None)) ! 0))) = Inr ()
   \<and> (\<exists>W'. abort generator_ops limited_ops (Value 9) (gen_started 1 None) =
              (Inr (), ((fst (gen_started 1 None))
                 \<lparr>iter := Some \<lparr>g_bound = 1, g_pc = GenDone, g_cnt = 1\<rparr>\<rparr>, W'))
         \<and> since (snd (gen_started 1 None)) W' =
             [CursorThrow (Value 9), Abort 0 (Value 9), ReleaseLock 0]
         \<and> s_state (streams W' ! 0) = Errored (Value 9) \<and> \<not> locked W' 0)
   \<and> prevent_abort (fst (gen_started 1 quiet))
   \<and> (\<exists>W'. abort generator_ops limited_ops (Value 9) (gen_started 1 quiet) =
              (Inr (), ((fst (gen_started 1 quiet))
                 \<lparr>iter := Some \<lparr>g_bound = 1, g_pc = GenDone, g_cnt = 1\<rparr>\<rparr>, W'))
         \<and> since (snd (gen_started 1 quiet)) W' = [CursorThrow (Value 9), ReleaseLock 0]
         \<and> \<not> locked W' 0)"
proof -
  let ?s = "fst (gen_started 1 None)" and ?W = "snd (gen_started 1 None)"
  let ?q = "fst (gen_started 1 quiet)" and ?Q = "snd (gen_started 1 quiet)"
  let ?c = "\<lparr>g_bound = 1, g_pc = GenAtYield 0, g_cnt = 0\<rparr>"
  let ?c' = "\<lparr>g_bound = 1, g_pc = GenDone, g_cnt = 1\<rparr>"
  have h1: "iter ?s = Some ?c" by code_simp
  have h2: "c_throw generator_ops = Some gen_throw" by (simp add: generator_ops_def)
  have h3: "gen_throw (Value 9) ?c = (Inl (Value 9), ?c')" by code_simp
  have h4: "writer ?s = Some 0" by code_simp
  have h5: "attached ?W 0 = Some 0" by code_simp
  have h6: "\<not> prevent_abort ?s" by code_simp
  have h7: "s_state (streams ?W ! 0) = Writable" by code_simp
  have h8: "fst (u_abort limited_ops (Value 9) (s_sink (streams ?W ! 0))) = Inr ()" by code_simp
  have q1: "iter ?q = Some ?c" by code_simp
  have q4: "writer ?q = Some 0" by code_simp
  have q5: "attached ?Q 0 = Some 0" by code_simp
  have q6: "prevent_abort ?q" by code_simp
  from abort_order [OF h1 h2 h3 h4 h5, of limited_ops] h6 h7 h8
  have a: "\<exists>W'. abort generator_ops limited_ops (Value 9) (gen_started 1 None) =
              (Inr (), (?s\<lparr>iter := Some ?c'\<rparr>, W'))
         \<and> since ?W W' = [CursorThrow (Value 9), Abort 0 (Value 9), ReleaseLock 0]
         \<and> s_state (streams W' ! 0) = Errored (Value 9) \<and> \<not> locked W' 0" by simp
  from abort_order [OF q1 h2 h3 q4 q5, of limited_ops] q6
  have b: "\<exists>W'. abort generator_ops limited_ops (Value 9) (gen_started 1 quiet) =
              (Inr (), (?q\<lparr>iter := Some ?c'\<rparr>, W'))
         \<and> since ?Q W' = [CursorThrow (Value 9), ReleaseLock 0] \<and> \<not> locked W' 0" by auto
  from h1 h2 h3 h4 h5 h6 h7 h8 a q6 b show ?thesis by blast
qed

text \<open>Claim C9 as stated fails: with the default options a second \<open>close\<close> and a second \<open>abort\<close> reject.\<close>

theorem second_close_raises:
  "fst (close array_ops limited_ops one_started) = Inr ()
   \<and> fst (close array_ops limited_ops (snd (close array_ops limited_ops one_started))) =
       Inl released_error
   \<and> fst (abort array_ops limited_ops (Value 0) one_started) = Inr ()
   \<and> fst (abort array_ops limited_ops (Value 0)
            (snd (abort array_ops limited_ops (Value 0) one_started))) = Inl released_error"
  by code_simp

text \<open>Termination called twice with both options set.\<close>

theorem repeated_termination_witness:
  "close generator_ops limited_ops (gen_started 1 quiet) =
     (Inr (), snd (close generator_ops limited_ops (gen_started 1 quiet)))
   \<and> writer (fst (gen_started 1 quiet)) = Some 0
   \<and> fst (iter_return generator_ops (snd (close generator_ops limited_ops (gen_started 1 quiet)))) = Inr ()
   \<and> prevent_close (fst (gen_started 1 quiet))
   \<and> fst (close generator_ops limited_ops
            (snd (close generator_ops limited_ops (gen_started 1 quiet)))) = Inr ()
   \<and> abort generator_ops limited_ops (Value 1) (gen_started 1 quiet) =
     (Inr (), snd (abort generator_ops limited_ops (Value 1) (gen_started 1 quiet)))
   \<and> prevent_abort (fst (gen_started 1 quiet))
   \<and> fst (abort generator_ops limited_ops (Value 2)
            (snd (abort generator_ops limited_ops (Value 1) (gen_started 1 quiet)))) = Inr ()"
proof -
  let ?s = "fst (gen_started 1 quiet)" and ?W = "snd (gen_started 1 quiet)"
  let ?c1 = "snd (close generator_ops limited_ops (gen_started 1 quiet))"
  let ?a1 = "snd (abort generator_ops limited_ops (Value 1) (gen_started 1 quiet))"
  have "fst (close generator_ops limited_ops (gen_started 1 quiet)) = Inr ()" by code_simp
  then have h1: "close generator_ops limited_ops (?s, ?W) = (Inr (), ?c1)" by (simp add: prod_eq_iff)
  have h2: "writer ?s = Some 0" by code_simp
  have h3: "fst (iter_return generator_ops ?c1) = Inr ()" by code_simp
  have "fst (abort generator_ops limited_ops (Value 1) (gen_started 1 quiet)) = Inr ()" by code_simp
  then have h4: "abort generator_ops limited_ops (Value 1) (?s, ?W) = (Inr (), ?a1)"
    by (simp add: prod_eq_iff)
  have p1: "prevent_close ?s" by code_simp
  have p2: "prevent_abort ?s" by code_simp
  from repeated_termination [where C = generator_ops and U = limited_ops and s = "?s" and W = "?W"
      and ?cfg1.0 = "?c1" and w = 0] h1 h2 h3 p1
  have c: "fst (close generator_ops limited_ops ?c1) = Inr ()" by simp
  from repeated_termination [where C = generator_ops and U = limited_ops and s = "?s" and W = "?W"
      and ?cfg2.0 = "?a1" and w = 0 and reason = "Value 1" and reason' = "Value 2"] h4 h2 p2
  have a: "fst (abort generator_ops limited_ops (Value 2) ?a1) = Inr ()" by simp
  from h1 h2 h3 h4 p1 p2 c a show ?thesis by simp
qed

text \<open>
  The first test asserts \<open>locked\<close> on the in-memory streams that the limited streams
  wrap: each limited stream has released its in-memory stream, the first three when their
  limit was exceeded and the last one when the sink closed it.
\<close>

theorem first_test_in_memory_streams:
  "map (inner_locked (snd (snd (pipeTo array_ops limited_ops ''ABCDEFG''
          (new_sink [0..<4] None, limited_world 4 2))))) [0..<4] = [False, False, False, False]
   \<and> map (data (snd (snd (pipeTo array_ops limited_ops ''ABCDEFG''
          (new_sink [0..<4] None, limited_world 4 2))))) [0..<4] = [''AB'', ''CD'', ''EF'', ''G'']"
  by code_simp

end
